theory Spec2Isabelle
  imports Main "HOL-Library.Word" "HOL-Library.Signed_Division"
begin

unbundle bit_operations_syntax

text \<open>
  The timer of the Pintos kernel, devices/timer.c: the tick counter, sleeping until a
  tick, sleeping for a real-time duration and the calibration of the busy-wait loop. The
  functions are translated into functions on the state of the module; the properties of
  the module follow the definitions.
\<close>

section \<open>Machine integers of devices/timer.c\<close>

text \<open>
  \<^verbatim>\<open>int64_t\<close>, \<^verbatim>\<open>int32_t\<close> and \<^verbatim>\<open>unsigned\<close> are machine words. Addition, subtraction
  and multiplication wrap around, as the two's-complement target does; the signed
  reading of a word is \<open>sint\<close>, signed comparison is \<open>\<le>s\<close> and \<open><s\<close>.
\<close>

type_synonym int64 = "64 word"
type_synonym int32 = "32 word"
type_synonym uint32 = "32 word"

datatype fault = Assertion_failed | Divide_error | Format_fault

text \<open>
  C's \<^verbatim>\<open>/\<close> and \<^verbatim>\<open>%\<close> on signed operands truncate towards zero. A zero divisor, and
  the quotient of the least value by \<open>-1\<close>, trap on the target.
\<close>

definition c_div :: "'a::len word \<Rightarrow> 'a word \<Rightarrow> fault + 'a word" where
  "c_div a b =
     (if b = 0 \<or> (sint a = - (2 ^ (LENGTH('a) - 1)) \<and> sint b = - 1) then Inl Divide_error
      else Inr (word_of_int (sint a sdiv sint b)))"

definition c_mod :: "'a::len word \<Rightarrow> 'a word \<Rightarrow> fault + 'a word" where
  "c_mod a b =
     (if b = 0 \<or> (sint a = - (2 ^ (LENGTH('a) - 1)) \<and> sint b = - 1) then Inl Divide_error
      else Inr (word_of_int (sint a smod sint b)))"

section \<open>State of the timer module\<close>

text \<open>
  A thread is named by the address of its \<^verbatim>\<open>struct thread\<close>, here a number. The module's
  state is its three static variables (\<^verbatim>\<open>sleep_list\<close>, \<^verbatim>\<open>ticks\<close>, \<^verbatim>\<open>loops_per_tick\<close>), the
  \<^verbatim>\<open>wake_tick\<close> field of every thread, and what the scheduler keeps of each thread (whether
  it is blocked). Three history fields record what the module does to the outside:
  \<open>trace\<close> is the sequence of calls into the scheduler, \<open>spins\<close> counts the iterations of
  \<^verbatim>\<open>busy_wait\<close>, and \<open>measured\<close> lists each call of \<^verbatim>\<open>too_many_loops\<close> with its answer.
\<close>

type_synonym tid = nat

datatype thread_status = Runnable | Blocked

datatype intr_level = INTR_OFF | INTR_ON

datatype event = Thread_tick int64 | Thread_block tid | Thread_unblock tid

record timer =
  ticks :: int64
  loops_per_tick :: uint32
  sleep_list :: "tid list"
  wake_tick :: "tid \<Rightarrow> int64"
  status :: "tid \<Rightarrow> thread_status"
  trace :: "event list"
  spins :: nat
  measured :: "(uint32 \<times> bool) list"

section \<open>Collaborators\<close>

text \<open>
  Modelled from the spec: \<^verbatim>\<open>thread_tick\<close>, \<^verbatim>\<open>thread_block\<close> and \<^verbatim>\<open>thread_unblock\<close> of
  threads/thread.c are not part of the source at hand. The spec describes them as the
  per-tick scheduler notification, the operation that blocks the calling context and the
  operation that marks a blocked context runnable again. Each one is recorded in the
  trace; \<open>Thread_tick\<close> carries the value the tick counter has when the call is made.
\<close>

definition thread_tick :: "timer \<Rightarrow> timer" where
  "thread_tick s = s\<lparr>trace := trace s @ [Thread_tick (ticks s)]\<rparr>"

definition thread_block :: "tid \<Rightarrow> timer \<Rightarrow> timer" where
  "thread_block cur s =
     s\<lparr>status := (status s)(cur := Blocked), trace := trace s @ [Thread_block cur]\<rparr>"

definition thread_unblock :: "tid \<Rightarrow> timer \<Rightarrow> timer" where
  "thread_unblock t s =
     s\<lparr>status := (status s)(t := Runnable), trace := trace s @ [Thread_unblock t]\<rparr>"

text \<open>
  Modelled from the spec: \<^verbatim>\<open>list_insert_ordered\<close> of lib/kernel/list.c is not part of the
  source at hand. The spec asks for an insertion that keeps the order given by the
  comparison and is stable for ties: the new element goes in front of the first element
  that it is strictly less than, hence behind every element it ties with.
  \<^verbatim>\<open>list_empty\<close>, \<^verbatim>\<open>list_front\<close> and \<^verbatim>\<open>list_pop_front\<close> are the case distinction on the list.
\<close>

fun list_insert_ordered :: "'a list \<Rightarrow> 'a \<Rightarrow> ('a \<Rightarrow> 'a \<Rightarrow> bool) \<Rightarrow> 'a list" where
  "list_insert_ordered [] elem less' = [elem]"
| "list_insert_ordered (e # es) elem less' =
     (if less' elem e then elem # e # es else e # list_insert_ordered es elem less')"

section \<open>The functions of devices/timer.c\<close>

text \<open>
  \<^verbatim>\<open>intr_disable ()\<close> ... \<^verbatim>\<open>intr_set_level (old)\<close> brackets make the statements between them
  one step that the interrupt handler cannot interleave with; the functions below are
  these steps. The interrupt level of the calling context, which \<^verbatim>\<open>intr_get_level ()\<close>
  reads, is the argument \<open>lvl\<close>.
\<close>

text \<open>
  \<^verbatim>\<open>timer_init\<close> programs the interval timer through three port writes and registers the
  handler; of the module's state it initialises the sleep list.
\<close>

definition timer_init :: "timer \<Rightarrow> timer" where
  "timer_init s = s\<lparr>sleep_list := []\<rparr>"

text \<open>The statics are zero when the kernel is loaded; \<^verbatim>\<open>timer_init\<close> runs once.\<close>

definition boot :: timer where
  "boot = timer_init
     \<lparr>ticks = 0, loops_per_tick = 0, sleep_list = [], wake_tick = (\<lambda>_. 0),
      status = (\<lambda>_. Runnable), trace = [], spins = 0, measured = []\<rparr>"

definition wake_less :: "timer \<Rightarrow> tid \<Rightarrow> tid \<Rightarrow> bool" where
  "wake_less s a b = (wake_tick s a <s wake_tick s b)"

definition timer_ticks :: "timer \<Rightarrow> int64" where
  "timer_ticks s = ticks s"

definition timer_elapsed :: "int64 \<Rightarrow> timer \<Rightarrow> int64" where
  "timer_elapsed then' s = timer_ticks s - then'"

text \<open>\<^verbatim>\<open>timer_print_stats\<close> prints the value of \<^verbatim>\<open>timer_ticks ()\<close>; the result is that value.\<close>

definition timer_print_stats :: "timer \<Rightarrow> int64" where
  "timer_print_stats s = timer_ticks s"

text \<open>
  \<^verbatim>\<open>timer_sleep\<close>, lines 124 to 128: the early return, the assertion and the computation
  of the local variable \<^verbatim>\<open>wake\<close>. The result \<open>None\<close> is the early return.
\<close>

definition timer_sleep_wake :: "intr_level \<Rightarrow> int64 \<Rightarrow> timer \<Rightarrow> fault + int64 option" where
  "timer_sleep_wake lvl n s =
     (if n \<le>s 0 then Inr None
      else if lvl \<noteq> INTR_ON then Inl Assertion_failed
      else Inr (Some (timer_ticks s + n)))"

text \<open>
  \<^verbatim>\<open>timer_sleep\<close>, lines 130 to 133, with interrupts disabled: the store to \<^verbatim>\<open>wake_tick\<close>,
  the ordered insertion and \<^verbatim>\<open>thread_block\<close>. Line 134 restores the interrupt level when
  the thread runs again and changes nothing in the module.
\<close>

definition timer_sleep_block :: "tid \<Rightarrow> int64 \<Rightarrow> timer \<Rightarrow> timer" where
  "timer_sleep_block t wake s =
     (let s1 = s\<lparr>wake_tick := (wake_tick s)(t := wake)\<rparr>;
          s2 = s1\<lparr>sleep_list := list_insert_ordered (sleep_list s1) t (wake_less s1)\<rparr>
      in thread_block t s2)"

definition timer_sleep :: "intr_level \<Rightarrow> tid \<Rightarrow> int64 \<Rightarrow> timer \<Rightarrow> fault + timer" where
  "timer_sleep lvl cur n s =
     (case timer_sleep_wake lvl n s of
        Inl e \<Rightarrow> Inl e
      | Inr None \<Rightarrow> Inr s
      | Inr (Some wake) \<Rightarrow> Inr (timer_sleep_block cur wake s))"

text \<open>The loop of \<^verbatim>\<open>timer_interrupt\<close>, lines 175 to 183.\<close>

function wake_due :: "int64 \<Rightarrow> timer \<Rightarrow> timer" where
  "wake_due now s =
     (case sleep_list s of
        [] \<Rightarrow> s
      | t # rest \<Rightarrow>
          if wake_tick s t \<le>s now
          then wake_due now (thread_unblock t (s\<lparr>sleep_list := rest\<rparr>))
          else s)"
  by pat_completeness auto
termination
  by (relation "measure (\<lambda>(now, s). length (sleep_list s))")
     (auto simp: thread_unblock_def)

declare wake_due.simps [simp del]

definition timer_interrupt :: "timer \<Rightarrow> timer" where
  "timer_interrupt s =
     (let s1 = s\<lparr>ticks := ticks s + 1\<rparr>;
          s2 = thread_tick s1;
          now = ticks s2
      in wake_due now s2)"

text \<open>\<^verbatim>\<open>busy_wait\<close> returns the number of iterations its loop makes.\<close>

function busy_wait :: "int64 \<Rightarrow> nat" where
  "busy_wait loops = (if 0 <s loops then Suc (busy_wait (loops - 1)) else 0)"
  by pat_completeness auto

lemma sint_pred64:
  fixes loops :: int64
  assumes "0 <s loops"
  shows "sint (loops - 1) = sint loops - 1"
proof -
  have pos: "0 < sint loops"
    using assms by (simp add: word_sless_alt)
  have up: "sint loops < 2 ^ 63"
    using sint_lt [of loops] by simp
  have "sint (loops - 1) = signed_take_bit 63 (sint loops - 1)"
    by (simp add: sint_word_ariths)
  also have "\<dots> = sint loops - 1"
    using pos up by (intro signed_take_bit_int_eq_self) auto
  finally show ?thesis .
qed

termination busy_wait
  by (relation "measure (\<lambda>loops. nat (sint loops))")
     (auto simp: sint_pred64 word_sless_alt)

declare busy_wait.simps [simp del]

text \<open>
  \<^verbatim>\<open>real_time_sleep\<close>. \<^verbatim>\<open>TIMER_FREQ\<close> is a macro of devices/timer.h, which is not part of
  the source at hand; it is the first argument. \<^verbatim>\<open>denom\<close> is converted from \<^verbatim>\<open>int32_t\<close> to
  \<^verbatim>\<open>int64_t\<close> for the first division, and \<^verbatim>\<open>loops_per_tick\<close> from \<^verbatim>\<open>unsigned\<close> to \<^verbatim>\<open>int64_t\<close>
  for the product with \<^verbatim>\<open>num\<close>.
\<close>

definition real_time_sleep ::
  "int64 \<Rightarrow> intr_level \<Rightarrow> tid \<Rightarrow> int64 \<Rightarrow> int32 \<Rightarrow> timer \<Rightarrow> fault + timer" where
  "real_time_sleep TIMER_FREQ lvl cur num denom s =
     (case c_div (num * TIMER_FREQ) (scast denom) of
        Inl e \<Rightarrow> Inl e
      | Inr ticks' \<Rightarrow>
          if lvl \<noteq> INTR_ON then Inl Assertion_failed
          else if 0 <s ticks' then timer_sleep lvl cur ticks' s
          else
            (case c_mod denom 1000 of
               Inl e \<Rightarrow> Inl e
             | Inr r \<Rightarrow>
                 if r \<noteq> 0 then Inl Assertion_failed
                 else
                   (case c_div (ucast (loops_per_tick s) * num) 1000 of
                      Inl e \<Rightarrow> Inl e
                    | Inr a \<Rightarrow>
                        (case c_div denom 1000 of
                           Inl e \<Rightarrow> Inl e
                         | Inr d \<Rightarrow>
                             (case c_div (a * TIMER_FREQ) (scast d) of
                                Inl e \<Rightarrow> Inl e
                              | Inr loops \<Rightarrow>
                                  Inr (s\<lparr>spins := spins s + busy_wait loops\<rparr>))))))"

definition timer_msleep :: "int64 \<Rightarrow> intr_level \<Rightarrow> tid \<Rightarrow> int64 \<Rightarrow> timer \<Rightarrow> fault + timer" where
  "timer_msleep TIMER_FREQ lvl cur ms s = real_time_sleep TIMER_FREQ lvl cur ms 1000 s"

definition timer_usleep :: "int64 \<Rightarrow> intr_level \<Rightarrow> tid \<Rightarrow> int64 \<Rightarrow> timer \<Rightarrow> fault + timer" where
  "timer_usleep TIMER_FREQ lvl cur us s =
     real_time_sleep TIMER_FREQ lvl cur us (1000 * 1000) s"

definition timer_nsleep :: "int64 \<Rightarrow> intr_level \<Rightarrow> tid \<Rightarrow> int64 \<Rightarrow> timer \<Rightarrow> fault + timer" where
  "timer_nsleep TIMER_FREQ lvl cur ns s =
     real_time_sleep TIMER_FREQ lvl cur ns (1000 * 1000 * 1000) s"

section \<open>Calibration\<close>

text \<open>
  \<^verbatim>\<open>too_many_loops\<close> reads the tick counter while the interrupt handler advances it. The
  values its successive reads return are the argument \<open>obs\<close>, consumed from the front: one
  read for \<^verbatim>\<open>start\<close>, one per test of the waiting loop, one for the second \<^verbatim>\<open>start\<close> and
  one for the final comparison. When the reads run out the function has not returned
  (the counter is never seen to change), which is the result \<open>None\<close>.
\<close>

fun wait_tick :: "int64 \<Rightarrow> int64 list \<Rightarrow> int64 list option" where
  "wait_tick start [] = None"
| "wait_tick start (t # obs) = (if t = start then wait_tick start obs else Some obs)"

definition too_many_loops ::
  "uint32 \<Rightarrow> int64 list \<Rightarrow> timer \<Rightarrow> (bool \<times> int64 list \<times> timer) option" where
  "too_many_loops loops obs s =
     (case obs of
        [] \<Rightarrow> None
      | start # obs1 \<Rightarrow>
          (case wait_tick start obs1 of
             None \<Rightarrow> None
           | Some obs2 \<Rightarrow>
               (case obs2 of
                  [] \<Rightarrow> None
                | start' # obs3 \<Rightarrow>
                    (let s1 = s\<lparr>spins := spins s + busy_wait (ucast loops)\<rparr> in
                     case obs3 of
                       [] \<Rightarrow> None
                     | t # obs4 \<Rightarrow>
                         (let many = (start' \<noteq> t) in
                          Some (many, obs4,
                                s1\<lparr>measured := measured s1 @ [(loops, many)]\<rparr>))))))"

lemma wait_tick_shorter: "wait_tick start obs = Some obs' \<Longrightarrow> length obs' < length obs"
  by (induction obs) (auto split: if_splits)

lemma too_many_loops_shorter:
  "too_many_loops loops obs s = Some (many, obs', s') \<Longrightarrow> length obs' < length obs"
  by (auto simp: too_many_loops_def Let_def split: list.splits option.splits
      dest!: wait_tick_shorter)

text \<open>The doubling loop of \<^verbatim>\<open>timer_calibrate\<close>, lines 79 to 82.\<close>

function calibrate_double :: "int64 list \<Rightarrow> timer \<Rightarrow> (fault + int64 list \<times> timer) option" where
  "calibrate_double obs s =
     (case too_many_loops (push_bit 1 (loops_per_tick s)) obs s of
        None \<Rightarrow> None
      | Some (many, obs', s') \<Rightarrow>
          if \<not> many then
            (let s'' = s'\<lparr>loops_per_tick := push_bit 1 (loops_per_tick s')\<rparr> in
             if loops_per_tick s'' \<noteq> 0 then calibrate_double obs' s''
             else Some (Inl Assertion_failed))
          else Some (Inr (obs', s')))"
  by pat_completeness auto
termination
  by (relation "measure (\<lambda>(obs, s). length obs)")
     (auto dest: too_many_loops_shorter)

declare calibrate_double.simps [simp del]

text \<open>The refining loop of \<^verbatim>\<open>timer_calibrate\<close>, lines 86 to 88.\<close>

function calibrate_refine ::
  "uint32 \<Rightarrow> uint32 \<Rightarrow> int64 list \<Rightarrow> timer \<Rightarrow> (int64 list \<times> timer) option" where
  "calibrate_refine high_bit test_bit obs s =
     (if test_bit \<noteq> drop_bit 10 high_bit then
        (case too_many_loops (high_bit OR test_bit) obs s of
           None \<Rightarrow> None
         | Some (many, obs', s') \<Rightarrow>
             calibrate_refine high_bit (drop_bit 1 test_bit) obs'
               (if \<not> many then s'\<lparr>loops_per_tick := loops_per_tick s' OR test_bit\<rparr> else s'))
      else Some (obs, s))"
  by pat_completeness auto
termination
  by (relation "measure (\<lambda>(high_bit, test_bit, obs, s). length obs)")
     (auto dest: too_many_loops_shorter)

declare calibrate_refine.simps [simp del]

text \<open>
  \<^verbatim>\<open>timer_calibrate\<close>, lines 73 to 88: the assertion and the two loops. The result is the
  state in which line 90 is reached.
\<close>

definition timer_calibrate_value ::
  "intr_level \<Rightarrow> int64 list \<Rightarrow> timer \<Rightarrow> (fault + int64 list \<times> timer) option" where
  "timer_calibrate_value lvl obs s =
     (if lvl \<noteq> INTR_ON then Some (Inl Assertion_failed)
      else
        (case calibrate_double obs (s\<lparr>loops_per_tick := push_bit 10 1\<rparr>) of
           None \<Rightarrow> None
         | Some (Inl e) \<Rightarrow> Some (Inl e)
         | Some (Inr (obs1, s1)) \<Rightarrow>
             (let high_bit = loops_per_tick s1 in
              case calibrate_refine high_bit (drop_bit 1 high_bit) obs1 s1 of
                None \<Rightarrow> None
              | Some r \<Rightarrow> Some (Inr r))))"

text \<open>
  Line 90 calls \<^verbatim>\<open>printf\<close> with the format \<^verbatim>\<open>"%s'" PRIu64 " loops/s.\n"\<close> and the one argument
  \<^verbatim>\<open>(uint64_t) loops_per_tick * TIMER_FREQ\<close>. The conversion \<^verbatim>\<open>%s\<close> takes its argument as the
  address of a string, and the argument is an integer: the call is outside the defined
  behaviour of \<^verbatim>\<open>printf\<close>, which reads a string at that address. It is a fault here, so
  \<^verbatim>\<open>timer_calibrate\<close> does not return normally once it has computed \<^verbatim>\<open>loops_per_tick\<close>.
\<close>

definition timer_calibrate ::
  "intr_level \<Rightarrow> int64 list \<Rightarrow> timer \<Rightarrow> (fault + int64 list \<times> timer) option" where
  "timer_calibrate lvl obs s =
     (case timer_calibrate_value lvl obs s of
        None \<Rightarrow> None
      | Some (Inl e) \<Rightarrow> Some (Inl e)
      | Some (Inr r) \<Rightarrow> Some (Inl Format_fault))"

text \<open>
  How often the tick counter is seen to advance over a sequence of reads: the number of
  adjacent reads that differ.
\<close>

fun changes :: "int64 list \<Rightarrow> nat" where
  "changes (a # b # obs) = (if a \<noteq> b then 1 else 0) + changes (b # obs)"
| "changes obs = 0"

section \<open>Threads and the interrupt handler together\<close>

text \<open>
  The kernel runs on one processor. Between two steps of a thread the timer interrupt may
  fire, and another thread may run. A thread inside \<^verbatim>\<open>timer_sleep\<close> has computed its local
  variable \<^verbatim>\<open>wake\<close> with interrupts enabled and enters the section with interrupts
  disabled later; \<open>wake_local\<close> holds the variable in between. The thread that
  \<^verbatim>\<open>thread_current ()\<close> returns is running, so it is not blocked: a blocked thread makes no
  step. A failed assertion halts the kernel, so it has no next state either.
\<close>

datatype action = Timer_tick | Call_sleep tid intr_level int64 | Enter_block tid

record system =
  kernel :: timer
  wake_local :: "tid \<Rightarrow> int64 option"

fun step :: "action \<Rightarrow> system \<Rightarrow> system option" where
  "step Timer_tick \<sigma> = Some (\<sigma>\<lparr>kernel := timer_interrupt (kernel \<sigma>)\<rparr>)"
| "step (Call_sleep c lvl n) \<sigma> =
     (if status (kernel \<sigma>) c = Blocked \<or> wake_local \<sigma> c \<noteq> None then None
      else
        (case timer_sleep_wake lvl n (kernel \<sigma>) of
           Inl e \<Rightarrow> None
         | Inr None \<Rightarrow> Some \<sigma>
         | Inr (Some wake) \<Rightarrow> Some (\<sigma>\<lparr>wake_local := (wake_local \<sigma>)(c := Some wake)\<rparr>)))"
| "step (Enter_block c) \<sigma> =
     (case wake_local \<sigma> c of
        None \<Rightarrow> None
      | Some wake \<Rightarrow>
          Some \<lparr>kernel = timer_sleep_block c wake (kernel \<sigma>),
                wake_local = (wake_local \<sigma>)(c := None)\<rparr>)"

fun run :: "action list \<Rightarrow> system \<Rightarrow> system option" where
  "run [] \<sigma> = Some \<sigma>"
| "run (a # as) \<sigma> = (case step a \<sigma> of None \<Rightarrow> None | Some \<sigma>' \<Rightarrow> run as \<sigma>')"

definition boot_system :: system where
  "boot_system = \<lparr>kernel = boot, wake_local = (\<lambda>_. None)\<rparr>"

section \<open>Sleeping order\<close>

text \<open>
  The order in which threads went to sleep is read off the trace: \<open>asleep\<close> lists the
  threads that \<^verbatim>\<open>thread_block\<close> was called for and \<^verbatim>\<open>thread_unblock\<close> was not called for
  since, in the order of their \<^verbatim>\<open>thread_block\<close> calls. \<open>sleep_inv\<close> is what the sleep list
  is to satisfy: its entries are distinct blocked threads that are not about to enter
  \<^verbatim>\<open>timer_sleep\<close> again, it is sorted by \<^verbatim>\<open>wake_tick\<close>, it holds exactly the threads asleep,
  and the entries with one deadline stand in the order they went to sleep.
\<close>

fun note_event :: "tid list \<Rightarrow> event \<Rightarrow> tid list" where
  "note_event q (Thread_block c) = q @ [c]"
| "note_event q (Thread_unblock c) = removeAll c q"
| "note_event q (Thread_tick t) = q"

definition asleep :: "event list \<Rightarrow> tid list" where
  "asleep tr = foldl note_event [] tr"

definition sleep_inv :: "system \<Rightarrow> bool" where
  "sleep_inv \<sigma> \<longleftrightarrow>
     distinct (sleep_list (kernel \<sigma>)) \<and>
     (\<forall>t \<in> set (sleep_list (kernel \<sigma>)).
        status (kernel \<sigma>) t = Blocked \<and> wake_local \<sigma> t = None) \<and>
     sorted_wrt (\<lambda>a b. wake_tick (kernel \<sigma>) a \<le>s wake_tick (kernel \<sigma>) b)
       (sleep_list (kernel \<sigma>)) \<and>
     set (asleep (trace (kernel \<sigma>))) = set (sleep_list (kernel \<sigma>)) \<and>
     (\<forall>w. filter (\<lambda>t. wake_tick (kernel \<sigma>) t = w) (sleep_list (kernel \<sigma>)) =
          filter (\<lambda>t. wake_tick (kernel \<sigma>) t = w) (asleep (trace (kernel \<sigma>))))"

text \<open>
  A thread \<open>c\<close> is on its way to the deadline \<open>w\<close> when it holds \<open>w\<close> in its local
  variable \<^verbatim>\<open>wake\<close>, or stands in the sleep list with \<^verbatim>\<open>wake_tick\<close> equal to \<open>w\<close>.
\<close>

definition waiting :: "tid \<Rightarrow> int64 \<Rightarrow> system \<Rightarrow> bool" where
  "waiting c w \<sigma> \<longleftrightarrow>
     wake_local \<sigma> c = Some w \<or>
     (c \<in> set (sleep_list (kernel \<sigma>)) \<and> wake_tick (kernel \<sigma>) c = w)"

section \<open>Example states\<close>

text \<open>Three sleeping threads with deadlines 5, 5 and 9, at tick 4.\<close>

definition queue_5_5_9 :: timer where
  "queue_5_5_9 = boot\<lparr>ticks := 4, sleep_list := [1, 2, 3],
     wake_tick := (\<lambda>t. if t = 3 then 9 else 5),
     status := (\<lambda>t. if t \<in> {1, 2, 3} then Blocked else Runnable)\<rparr>"

text \<open>
  The state after \<open>n\<close> timer interrupts from boot with no thread asleep, and four threads
  that go to sleep with the durations 5, 3, 5 and 3 at tick 0.
\<close>

definition after_ticks :: "nat \<Rightarrow> system" where
  "after_ticks n =
     boot_system\<lparr>kernel := boot\<lparr>ticks := of_nat n,
       trace := map (\<lambda>i. Thread_tick (of_nat (Suc i))) [0..<n]\<rparr>\<rparr>"

definition four_sleepers :: "action list" where
  "four_sleepers =
     [Call_sleep 1 INTR_ON 5, Enter_block 1, Call_sleep 2 INTR_ON 3, Enter_block 2,
      Call_sleep 3 INTR_ON 5, Enter_block 3, Call_sleep 4 INTR_ON 3, Enter_block 4]"

text \<open>The state at boot with \<^verbatim>\<open>loops_per_tick\<close> calibrated to \<open>2^20\<close>.\<close>

definition calibrated :: timer where
  "calibrated = boot\<lparr>loops_per_tick := 1048576\<rparr>"

text \<open>What thread 1 does after it has called \<^verbatim>\<open>timer_sleep (2)\<close>, with two interrupts.\<close>

definition short_sleep :: "action list" where
  "short_sleep = [Enter_block 1, Timer_tick, Timer_tick]"

text \<open>
  Reads of the tick counter during calibration: \<open>fits\<close> is what \<^verbatim>\<open>too_many_loops\<close> reads when
  the counter changes after two more tests and stays while the loops run, \<open>too_long\<close> when
  it changes at once and changes again while the loops run.
\<close>

definition fits :: "int64 list" where
  "fits = [0, 0, 0, 1, 1, 1]"

definition too_long :: "int64 list" where
  "too_long = [0, 1, 1, 2]"

definition calibration_reads :: "int64 list" where
  "calibration_reads =
     fits @ too_long @ fits @ too_long @ fits @ too_long @ too_long @ too_long @ too_long @
     too_long @ too_long"

text \<open>
  Reads of a counter that has advanced by one at every read: \<open>steady\<close> is 0, 1, ..., 124.
\<close>

fun count_up :: "nat \<Rightarrow> int64 \<Rightarrow> int64 list" where
  "count_up 0 t = []"
| "count_up (Suc n) t = t # count_up n (t + 1)"

definition steady :: "int64 list" where
  "steady = count_up 125 0"

section \<open>The interrupt handler\<close>

lemma wake_due_fields [simp]:
  "ticks (wake_due now s) = ticks s \<and> wake_tick (wake_due now s) = wake_tick s \<and>
   loops_per_tick (wake_due now s) = loops_per_tick s \<and> spins (wake_due now s) = spins s \<and>
   measured (wake_due now s) = measured s"
proof (induction now s rule: wake_due.induct)
  case (1 now s)
  show ?case
  proof (cases "sleep_list s")
    case Nil
    then show ?thesis by (subst (1 2 3 4 5) wake_due.simps) simp
  next
    case (Cons t rest)
    show ?thesis
    proof (cases "wake_tick s t \<le>s now")
      case True
      from 1 [OF Cons True] Cons True show ?thesis
        by (subst (1 2 3 4 5) wake_due.simps) (simp add: thread_unblock_def)
    next
      case False
      with Cons show ?thesis by (subst (1 2 3 4 5) wake_due.simps) simp
    qed
  qed
qed

lemma wake_due_sleep_list:
  "sleep_list (wake_due now s) = dropWhile (\<lambda>t. wake_tick s t \<le>s now) (sleep_list s)"
proof (induction now s rule: wake_due.induct)
  case (1 now s)
  show ?case
  proof (cases "sleep_list s")
    case Nil
    then show ?thesis by (subst wake_due.simps) simp
  next
    case (Cons t rest)
    show ?thesis
    proof (cases "wake_tick s t \<le>s now")
      case True
      from 1 [OF Cons True] Cons True show ?thesis
        by (subst wake_due.simps) (simp add: thread_unblock_def)
    next
      case False
      with Cons show ?thesis by (subst wake_due.simps) simp
    qed
  qed
qed

lemma wake_due_trace:
  "trace (wake_due now s) =
     trace s @ map Thread_unblock (takeWhile (\<lambda>t. wake_tick s t \<le>s now) (sleep_list s))"
proof (induction now s rule: wake_due.induct)
  case (1 now s)
  show ?case
  proof (cases "sleep_list s")
    case Nil
    then show ?thesis by (subst wake_due.simps) simp
  next
    case (Cons t rest)
    show ?thesis
    proof (cases "wake_tick s t \<le>s now")
      case True
      from 1 [OF Cons True] Cons True show ?thesis
        by (subst wake_due.simps) (simp add: thread_unblock_def)
    next
      case False
      with Cons show ?thesis by (subst wake_due.simps) simp
    qed
  qed
qed

lemma wake_due_status:
  "status (wake_due now s) c =
     (if c \<in> set (takeWhile (\<lambda>t. wake_tick s t \<le>s now) (sleep_list s)) then Runnable
      else status s c)"
proof (induction now s rule: wake_due.induct)
  case (1 now s)
  show ?case
  proof (cases "sleep_list s")
    case Nil
    then show ?thesis by (subst wake_due.simps) simp
  next
    case (Cons t rest)
    show ?thesis
    proof (cases "wake_tick s t \<le>s now")
      case True
      from 1 [OF Cons True] Cons True show ?thesis
        by (subst wake_due.simps) (simp add: thread_unblock_def)
    next
      case False
      with Cons show ?thesis by (subst wake_due.simps) simp
    qed
  qed
qed

lemma timer_interrupt_ticks: "ticks (timer_interrupt s) = ticks s + 1"
  by (simp add: timer_interrupt_def thread_tick_def Let_def)

lemma timer_interrupt_keeps:
  "wake_tick (timer_interrupt s) = wake_tick s \<and>
   loops_per_tick (timer_interrupt s) = loops_per_tick s \<and>
   spins (timer_interrupt s) = spins s \<and> measured (timer_interrupt s) = measured s"
  by (simp add: timer_interrupt_def thread_tick_def Let_def)

lemma timer_interrupt_sleep_list:
  "sleep_list (timer_interrupt s) =
     dropWhile (\<lambda>t. wake_tick s t \<le>s ticks s + 1) (sleep_list s)"
  by (simp add: timer_interrupt_def thread_tick_def Let_def wake_due_sleep_list)

lemma timer_interrupt_trace:
  "trace (timer_interrupt s) =
     trace s @ Thread_tick (ticks s + 1) #
       map Thread_unblock (takeWhile (\<lambda>t. wake_tick s t \<le>s ticks s + 1) (sleep_list s))"
  by (simp add: timer_interrupt_def thread_tick_def Let_def wake_due_trace)

lemma timer_interrupt_status:
  "status (timer_interrupt s) c =
     (if c \<in> set (takeWhile (\<lambda>t. wake_tick s t \<le>s ticks s + 1) (sleep_list s))
      then Runnable else status s c)"
  by (simp add: timer_interrupt_def thread_tick_def Let_def wake_due_status)

text \<open>
  Claim C2. One run of the interrupt handler removes from the front of the sleep list
  exactly the longest prefix of entries whose \<^verbatim>\<open>wake_tick\<close> is at most the incremented tick
  count, unblocks them in list order and leaves the rest queued. With deadlines 5, 5, 9
  the tick to 5 unblocks the first two entries in order and keeps the third; the tick to
  9 unblocks the last one.
\<close>

theorem timer_interrupt_drains:
  "sleep_list (timer_interrupt s) =
     dropWhile (\<lambda>t. wake_tick s t \<le>s ticks s + 1) (sleep_list s) \<and>
   drop (length (trace s)) (trace (timer_interrupt s)) =
     Thread_tick (ticks s + 1) #
       map Thread_unblock (takeWhile (\<lambda>t. wake_tick s t \<le>s ticks s + 1) (sleep_list s)) \<and>
   (\<forall>c. status (timer_interrupt s) c =
     (if c \<in> set (takeWhile (\<lambda>t. wake_tick s t \<le>s ticks s + 1) (sleep_list s))
      then Runnable else status s c)) \<and>
   (sleep_list s = [a, b, c] \<and> wake_tick s a = 5 \<and> wake_tick s b = 5 \<and> wake_tick s c = 9 \<and>
    ticks s = 4 \<longrightarrow>
      sleep_list (timer_interrupt s) = [c] \<and>
      drop (length (trace s)) (trace (timer_interrupt s)) =
        [Thread_tick 5, Thread_unblock a, Thread_unblock b]) \<and>
   (sleep_list s = [c] \<and> wake_tick s c = 9 \<and> ticks s = 8 \<longrightarrow>
      sleep_list (timer_interrupt s) = [] \<and>
      drop (length (trace s)) (trace (timer_interrupt s)) = [Thread_tick 9, Thread_unblock c])"
  by (simp add: timer_interrupt_sleep_list timer_interrupt_trace timer_interrupt_status)

theorem timer_interrupt_drains_witness:
  "sleep_list (timer_interrupt queue_5_5_9) = [3] \<and>
   drop (length (trace queue_5_5_9)) (trace (timer_interrupt queue_5_5_9)) =
     [Thread_tick 5, Thread_unblock 1, Thread_unblock 2] \<and>
   ticks ((timer_interrupt ^^ 4) queue_5_5_9) = 8 \<and>
   sleep_list ((timer_interrupt ^^ 4) queue_5_5_9) = [3] \<and>
   sleep_list (timer_interrupt ((timer_interrupt ^^ 4) queue_5_5_9)) = [] \<and>
   drop (length (trace ((timer_interrupt ^^ 4) queue_5_5_9)))
     (trace (timer_interrupt ((timer_interrupt ^^ 4) queue_5_5_9))) =
     [Thread_tick 9, Thread_unblock 3]"
proof -
  have w: "wake_tick ((timer_interrupt ^^ 4) queue_5_5_9) 3 = 9"
    by (simp add: eval_nat_numeral timer_interrupt_keeps queue_5_5_9_def boot_def timer_init_def)
  have t: "ticks ((timer_interrupt ^^ 4) queue_5_5_9) = 8"
    by (simp add: eval_nat_numeral timer_interrupt_ticks queue_5_5_9_def boot_def timer_init_def)
  have l: "sleep_list ((timer_interrupt ^^ 4) queue_5_5_9) = [3]"
    by (simp add: eval_nat_numeral timer_interrupt_sleep_list timer_interrupt_ticks
        timer_interrupt_keeps queue_5_5_9_def boot_def timer_init_def word_sle_eq)
  show ?thesis
    using timer_interrupt_drains [of queue_5_5_9 1 2 3]
      timer_interrupt_drains [of "(timer_interrupt ^^ 4) queue_5_5_9" 1 2 3] w t l
    by (simp add: queue_5_5_9_def boot_def timer_init_def)
qed

section \<open>Sleeping for a non-positive number of ticks\<close>

text \<open>
  Claim C6. For every \<open>n \<le> 0\<close>, \<^verbatim>\<open>timer_sleep (n)\<close> returns at once without a fault and
  leaves the whole state as it was: the sleep list, the thread's status and the trace of
  scheduler calls are unchanged, so the thread is not blocked.
\<close>

theorem timer_sleep_nonpositive:
  "n \<le>s 0 \<Longrightarrow> timer_sleep lvl cur n s = Inr s"
  by (simp add: timer_sleep_def timer_sleep_wake_def)

theorem timer_sleep_nonpositive_witness:
  "(0 :: int64) \<le>s 0 \<and> (- 5 :: int64) \<le>s 0 \<and>
   timer_sleep INTR_ON 1 0 boot = Inr boot \<and> timer_sleep INTR_OFF 1 (- 5) boot = Inr boot"
proof -
  have z: "(0 :: int64) \<le>s 0" by simp
  have m: "(- 5 :: int64) \<le>s 0" by (simp add: word_sle_eq)
  show ?thesis
    using z m timer_sleep_nonpositive [OF z, of INTR_ON 1 boot]
      timer_sleep_nonpositive [OF m, of INTR_OFF 1 boot]
    by simp
qed


section \<open>Who writes the tick counter\<close>

lemma too_many_loops_keeps:
  "too_many_loops loops obs s = Some (many, obs', s') \<Longrightarrow>
     ticks s' = ticks s \<and> sleep_list s' = sleep_list s \<and> wake_tick s' = wake_tick s \<and>
     status s' = status s \<and> trace s' = trace s \<and> loops_per_tick s' = loops_per_tick s"
  by (auto simp: too_many_loops_def Let_def split: list.splits option.splits)

lemma calibrate_double_ticks:
  "calibrate_double obs s = Some (Inr (obs', s')) \<Longrightarrow> ticks s' = ticks s"
proof (induction obs s rule: calibrate_double.induct)
  case (1 obs s)
  from "1.prems" obtain many obs1 s1 where
    t: "too_many_loops (push_bit 1 (loops_per_tick s)) obs s = Some (many, obs1, s1)"
    by (subst (asm) calibrate_double.simps) (auto split: option.splits)
  note k = too_many_loops_keeps [OF t]
  show ?case
  proof (cases many)
    case True
    with "1.prems" t k show ?thesis
      by (subst (asm) calibrate_double.simps) simp
  next
    case False
    let ?s2 = "s1\<lparr>loops_per_tick := push_bit 1 (loops_per_tick s1)\<rparr>"
    from "1.prems" t False have nz: "loops_per_tick ?s2 \<noteq> 0"
      and r: "calibrate_double obs1 ?s2 = Some (Inr (obs', s'))"
      by (subst (asm) calibrate_double.simps, simp add: Let_def split: if_splits)+
    from "1.IH" [OF t refl refl _ refl nz r] False k show ?thesis by simp
  qed
qed

lemma calibrate_refine_ticks:
  "calibrate_refine high_bit test_bit obs s = Some (obs', s') \<Longrightarrow> ticks s' = ticks s"
proof (induction high_bit test_bit obs s rule: calibrate_refine.induct)
  case (1 high_bit test_bit obs s)
  show ?case
  proof (cases "test_bit \<noteq> drop_bit 10 high_bit")
    case False
    with "1.prems" show ?thesis
      by (subst (asm) calibrate_refine.simps) simp
  next
    case True
    from "1.prems" True obtain many obs1 s1 where
      t: "too_many_loops (high_bit OR test_bit) obs s = Some (many, obs1, s1)"
      by (subst (asm) calibrate_refine.simps) (auto split: option.splits)
    note k = too_many_loops_keeps [OF t]
    from "1.prems" True t have
      r: "calibrate_refine high_bit (drop_bit 1 test_bit) obs1
            (if \<not> many then s1\<lparr>loops_per_tick := loops_per_tick s1 OR test_bit\<rparr> else s1) =
          Some (obs', s')"
      by (subst (asm) calibrate_refine.simps) simp
    from "1.IH" [OF True t refl refl r] k show ?thesis by (simp split: if_splits)
  qed
qed

lemma timer_calibrate_ticks:
  "timer_calibrate_value lvl obs s = Some (Inr (obs', s')) \<Longrightarrow> ticks s' = ticks s"
  by (auto simp: timer_calibrate_value_def Let_def split: if_splits option.splits sum.splits
      dest!: calibrate_double_ticks calibrate_refine_ticks)

lemma timer_sleep_block_ticks: "ticks (timer_sleep_block t wake s) = ticks s"
  by (simp add: timer_sleep_block_def thread_block_def Let_def)

lemma timer_sleep_ticks: "timer_sleep lvl cur n s = Inr r \<Longrightarrow> ticks r = ticks s"
  by (auto simp: timer_sleep_def timer_sleep_wake_def timer_sleep_block_ticks
      split: if_splits)

lemma real_time_sleep_ticks:
  "real_time_sleep F lvl cur num denom s = Inr r \<Longrightarrow> ticks r = ticks s"
  by (auto simp: real_time_sleep_def split: sum.splits if_splits dest: timer_sleep_ticks)

lemma sint_succ64:
  fixes x :: int64
  assumes "sint x < 2 ^ 63 - 1"
  shows "sint (x + 1) = sint x + 1"
proof -
  have lo: "- (2 ^ 63) \<le> sint x"
    using sint_ge [of x] by simp
  have "sint (x + 1) = signed_take_bit 63 (sint x + 1)"
    by (simp add: sint_word_ariths)
  also have "\<dots> = sint x + 1"
    using assms lo by (intro signed_take_bit_int_eq_self) auto
  finally show ?thesis .
qed

text \<open>
  Claim C4. One run of the interrupt handler adds exactly 1 to the tick counter, then
  calls \<^verbatim>\<open>thread_tick\<close> exactly once (the call sees the incremented counter), and only then
  drains the sleep list: what the run appends to the trace is one \<open>Thread_tick\<close> event
  followed by the \<open>Thread_unblock\<close> events of exactly the entries at the front of the sleep
  list whose \<^verbatim>\<open>wake_tick\<close> is at most the incremented counter, which leave the list. No
  other function of the module changes the tick counter.
\<close>

theorem timer_interrupt_steps:
  "timer_interrupt s = wake_due (ticks s + 1) (thread_tick (s\<lparr>ticks := ticks s + 1\<rparr>)) \<and>
   ticks (timer_interrupt s) = ticks s + 1 \<and>
   (sint (ticks s) < 2 ^ 63 - 1 \<longrightarrow> sint (ticks (timer_interrupt s)) = sint (ticks s) + 1) \<and>
   drop (length (trace s)) (trace (timer_interrupt s)) =
     Thread_tick (ticks s + 1) #
       map Thread_unblock (takeWhile (\<lambda>t. wake_tick s t \<le>s ticks s + 1) (sleep_list s)) \<and>
   sleep_list (timer_interrupt s) =
     dropWhile (\<lambda>t. wake_tick s t \<le>s ticks s + 1) (sleep_list s) \<and>
   trace (thread_tick (s\<lparr>ticks := ticks s + 1\<rparr>)) = trace s @ [Thread_tick (ticks s + 1)] \<and>
   sleep_list (thread_tick (s\<lparr>ticks := ticks s + 1\<rparr>)) = sleep_list s \<and>
   ticks (timer_init s) = ticks s \<and>
   ticks (timer_sleep_block t wake s) = ticks s \<and>
   (\<forall>r. timer_sleep lvl cur n s = Inr r \<longrightarrow> ticks r = ticks s) \<and>
   (\<forall>r. real_time_sleep F lvl cur num denom s = Inr r \<longrightarrow> ticks r = ticks s) \<and>
   (\<forall>r. timer_msleep F lvl cur num s = Inr r \<longrightarrow> ticks r = ticks s) \<and>
   (\<forall>r. timer_usleep F lvl cur num s = Inr r \<longrightarrow> ticks r = ticks s) \<and>
   (\<forall>r. timer_nsleep F lvl cur num s = Inr r \<longrightarrow> ticks r = ticks s) \<and>
   (\<forall>many obs' r. too_many_loops loops obs s = Some (many, obs', r) \<longrightarrow> ticks r = ticks s) \<and>
   (\<forall>obs' r. timer_calibrate_value lvl obs s = Some (Inr (obs', r)) \<longrightarrow> ticks r = ticks s)"
proof -
  let ?due = "\<lambda>t. wake_tick s t \<le>s ticks s + 1"
  have o: "timer_interrupt s = wake_due (ticks s + 1) (thread_tick (s\<lparr>ticks := ticks s + 1\<rparr>))"
    by (simp add: timer_interrupt_def thread_tick_def Let_def)
  have a: "ticks (timer_interrupt s) = ticks s + 1"
    by (rule timer_interrupt_ticks)
  have b: "sint (ticks s) < 2 ^ 63 - 1 \<longrightarrow> sint (ticks (timer_interrupt s)) = sint (ticks s) + 1"
    by (simp add: timer_interrupt_ticks sint_succ64)
  have c1: "drop (length (trace s)) (trace (timer_interrupt s)) =
          Thread_tick (ticks s + 1) # map Thread_unblock (takeWhile ?due (sleep_list s))"
    by (simp add: timer_interrupt_trace)
  have c2: "sleep_list (timer_interrupt s) = dropWhile ?due (sleep_list s)"
    by (rule timer_interrupt_sleep_list)
  have c3: "trace (thread_tick (s\<lparr>ticks := ticks s + 1\<rparr>)) = trace s @ [Thread_tick (ticks s + 1)]"
    "sleep_list (thread_tick (s\<lparr>ticks := ticks s + 1\<rparr>)) = sleep_list s"
    by (simp_all add: thread_tick_def)
  have d: "ticks (timer_init s) = ticks s"
    by (simp add: timer_init_def)
  have e: "\<forall>r. timer_sleep lvl cur n s = Inr r \<longrightarrow> ticks r = ticks s"
    by (blast dest: timer_sleep_ticks)
  have f: "\<forall>r. real_time_sleep F lvl cur num denom s = Inr r \<longrightarrow> ticks r = ticks s"
    by (blast dest: real_time_sleep_ticks)
  have g: "\<forall>r. timer_msleep F lvl cur num s = Inr r \<longrightarrow> ticks r = ticks s"
    "\<forall>r. timer_usleep F lvl cur num s = Inr r \<longrightarrow> ticks r = ticks s"
    "\<forall>r. timer_nsleep F lvl cur num s = Inr r \<longrightarrow> ticks r = ticks s"
    unfolding timer_msleep_def timer_usleep_def timer_nsleep_def
    by (blast dest: real_time_sleep_ticks)+
  have h: "\<forall>many obs' r. too_many_loops loops obs s = Some (many, obs', r) \<longrightarrow> ticks r = ticks s"
    by (blast dest: too_many_loops_keeps)
  have i: "\<forall>obs' r. timer_calibrate_value lvl obs s = Some (Inr (obs', r)) \<longrightarrow> ticks r = ticks s"
    by (blast dest: timer_calibrate_ticks)
  note k = timer_sleep_block_ticks [of t wake s]
  from o a b c1 c2 c3 d k e f g h i show ?thesis
    by (intro conjI) assumption+
qed

theorem timer_interrupt_steps_witness:
  "sint (ticks queue_5_5_9) < 2 ^ 63 - 1 \<and>
   sint (ticks (timer_interrupt queue_5_5_9)) = 5 \<and>
   drop (length (trace queue_5_5_9)) (trace (timer_interrupt queue_5_5_9)) =
     [Thread_tick 5, Thread_unblock 1, Thread_unblock 2] \<and>
   sleep_list (timer_interrupt queue_5_5_9) = [3] \<and>
   timer_sleep INTR_ON 4 7 queue_5_5_9 =
     Inr (timer_sleep_block 4 11 queue_5_5_9) \<and>
   ticks (timer_sleep_block 4 11 queue_5_5_9) = 4"
  using timer_interrupt_steps [of queue_5_5_9 4 11 INTR_ON 4 7, THEN conjunct2]
  by (simp add: queue_5_5_9_def boot_def timer_init_def timer_sleep_def timer_sleep_wake_def
      timer_ticks_def word_sle_eq)

section \<open>The interrupt-level assertion\<close>

text \<open>
  Claim C10. \<^verbatim>\<open>timer_sleep\<close> checks the duration before the interrupt level: with
  interrupts disabled it returns without a fault and without any change for every
  \<open>n \<le> 0\<close>, and fails its assertion only for positive \<open>n\<close>. \<^verbatim>\<open>timer_msleep\<close>,
  \<^verbatim>\<open>timer_usleep\<close> and \<^verbatim>\<open>timer_nsleep\<close> assert the interrupt level first and fail with
  interrupts disabled for every duration, non-positive ones included.
\<close>

theorem sleep_assertion_order:
  "(n \<le>s 0 \<longrightarrow> timer_sleep INTR_OFF cur n s = Inr s) \<and>
   (0 <s n \<longrightarrow> timer_sleep INTR_OFF cur n s = Inl Assertion_failed) \<and>
   timer_msleep F INTR_OFF cur n s = Inl Assertion_failed \<and>
   timer_usleep F INTR_OFF cur n s = Inl Assertion_failed \<and>
   timer_nsleep F INTR_OFF cur n s = Inl Assertion_failed"
  by (simp add: timer_sleep_def timer_sleep_wake_def timer_msleep_def timer_usleep_def
      timer_nsleep_def real_time_sleep_def c_div_def word_sle_eq word_sless_alt)

theorem sleep_assertion_order_witness:
  "(- 3 :: int64) \<le>s 0 \<and> timer_sleep INTR_OFF 1 (- 3) boot = Inr boot \<and>
   (0 :: int64) <s 3 \<and> timer_sleep INTR_OFF 1 3 boot = Inl Assertion_failed \<and>
   timer_msleep 100 INTR_OFF 1 (- 3) boot = Inl Assertion_failed \<and>
   timer_usleep 100 INTR_OFF 1 0 boot = Inl Assertion_failed \<and>
   timer_nsleep 100 INTR_OFF 1 (- 3) boot = Inl Assertion_failed"
  using sleep_assertion_order [of "- 3" 1 boot 100] sleep_assertion_order [of 3 1 boot 100]
    sleep_assertion_order [of 0 1 boot 100]
  by (simp add: word_sle_eq word_sless_alt)

section \<open>Sleeping for a real-time duration\<close>

lemma busy_wait_eq: "busy_wait loops = nat (sint loops)"
proof (induction loops rule: busy_wait.induct)
  case (1 loops)
  show ?case
  proof (cases "0 <s loops")
    case True
    with 1 show ?thesis
      by (subst busy_wait.simps) (simp add: sint_pred64 word_sless_alt nat_diff_distrib Suc_nat_eq_nat_zadd1)
  next
    case False
    then show ?thesis
      by (subst busy_wait.simps) (simp add: word_sless_alt)
  qed
qed

lemma sint_of_int64:
  "- (2 ^ 63) \<le> k \<Longrightarrow> k < 2 ^ 63 \<Longrightarrow> sint (word_of_int k :: int64) = k"
  by (simp add: sint_sbintrunc' signed_take_bit_int_eq_self)

lemma sint_mult64:
  fixes a b :: int64
  shows "- (2 ^ 63) \<le> sint a * sint b \<Longrightarrow> sint a * sint b < 2 ^ 63 \<Longrightarrow>
    sint (a * b) = sint a * sint b"
  by (simp add: sint_word_ariths signed_take_bit_int_eq_self)

lemma sint_scast32: "sint (scast (d :: int32) :: int64) = sint d"
  by (simp add: sint_up_scast is_up)

lemma sint_ucast32: "sint (ucast (l :: uint32) :: int64) = uint l"
proof -
  have "uint l < 2 ^ 32"
    using uint_lt2p [of l] by simp
  then have "uint l < 2 ^ 63"
    by (rule less_trans) simp
  moreover have "- (2 ^ 63) \<le> uint l"
    by (rule order_trans [of _ 0]) simp_all
  ultimately show ?thesis
    by (simp add: signed_ucast_eq signed_take_bit_int_eq_self)
qed

lemma sdiv_int_bounds:
  fixes k l :: int
  shows "- \<bar>k\<bar> \<le> k sdiv l \<and> k sdiv l \<le> \<bar>k\<bar>"
proof -
  have nn: "0 \<le> \<bar>k\<bar> div \<bar>l\<bar>"
    by (simp add: div_int_pos_iff)
  have "\<bar>k sdiv l\<bar> = \<bar>sgn k\<bar> * \<bar>sgn l\<bar> * (\<bar>k\<bar> div \<bar>l\<bar>)"
    using nn by (simp add: signed_divide_int_def abs_mult)
  also have "\<dots> \<le> \<bar>k\<bar> div \<bar>l\<bar>"
    using nn by (simp add: sgn_if)
  also have "\<dots> \<le> \<bar>k\<bar>"
  proof (cases "l = 0")
    case True
    then show ?thesis by simp
  next
    case False
    then have "\<bar>k\<bar> div \<bar>l\<bar> \<le> \<bar>k\<bar> div 1"
      by (intro zdiv_mono2) simp_all
    then show ?thesis by simp
  qed
  finally show ?thesis by linarith
qed

lemma sint_sdiv64:
  fixes a :: int64
  shows "sint (word_of_int (sint a sdiv l) :: int64) = sint a sdiv l \<or> sint a sdiv l = 2 ^ 63"
proof -
  have r: "- (2 ^ 63) \<le> sint a" "sint a < 2 ^ 63"
    using sint_ge [of a] sint_lt [of a] by simp_all
  from sdiv_int_bounds [of "sint a" l] r
  have "- (2 ^ 63) \<le> sint a sdiv l" "sint a sdiv l \<le> 2 ^ 63"
    by linarith+
  then show ?thesis
    by (cases "sint a sdiv l = 2 ^ 63") (simp_all add: sint_of_int64)
qed

lemma c_div_pos:
  "0 < sint b \<Longrightarrow> c_div a b = Inr (word_of_int (sint a sdiv sint b))"
  by (auto simp: c_div_def)

lemma sint_c_div_pos64:
  fixes a b :: int64
  assumes "0 < sint b"
  shows "sint (word_of_int (sint a sdiv sint b) :: int64) = sint a sdiv sint b"
proof -
  have r: "- (2 ^ 63) \<le> sint a" "sint a < 2 ^ 63"
    using sint_ge [of a] sint_lt [of a] by simp_all
  have "\<bar>sint a sdiv sint b\<bar> \<le> \<bar>sint a\<bar>"
    using sdiv_int_bounds [of "sint a" "sint b"] by linarith
  moreover have "sint a sdiv sint b \<noteq> 2 ^ 63"
  proof
    assume e: "sint a sdiv sint b = 2 ^ 63"
    then have "sint a sdiv sint b \<noteq> 0" "sgn (sint a sdiv sint b) = 1" by simp_all
    then have "sgn (sint a * sint b) = 1"
      using sgn_sdiv_eq_sgn_mult [of "sint a" "sint b"] by simp
    then have "0 < sint a"
      using assms by (simp add: sgn_1_pos zero_less_mult_iff)
    with sdiv_int_bounds [of "sint a" "sint b"] r e show False by linarith
  qed
  ultimately show ?thesis
    using sint_sdiv64 [of a "sint b"] by blast
qed

lemma sint_of_int32:
  "- (2 ^ 31) \<le> k \<Longrightarrow> k < 2 ^ 31 \<Longrightarrow> sint (word_of_int k :: int32) = k"
  by (simp add: sint_sbintrunc' signed_take_bit_int_eq_self)

lemma smod_1000_bounds: "- 1000 < (k :: int) smod 1000 \<and> k smod 1000 < 1000"
proof -
  have "0 \<le> \<bar>k\<bar> mod 1000" "\<bar>k\<bar> mod 1000 < 1000" by simp_all
  then show ?thesis
    by (auto simp: signed_modulo_int_def sgn_if)
qed

lemma c_mod_1000:
  fixes denom :: int32
  shows "c_mod denom 1000 = Inr (word_of_int (sint denom smod 1000))"
  by (simp add: c_mod_def)

lemma c_mod_1000_zero:
  fixes denom :: int32
  shows "(word_of_int (sint denom smod 1000) :: int32) = 0 \<longleftrightarrow> sint denom smod 1000 = 0"
proof
  assume z: "(word_of_int (sint denom smod 1000) :: int32) = 0"
  have "sint (word_of_int (sint denom smod 1000) :: int32) = sint denom smod 1000"
    using smod_1000_bounds [of "sint denom"] by (intro sint_of_int32) auto
  with z show "sint denom smod 1000 = 0" by simp
qed simp

lemma denom_div_1000:
  fixes denom :: int32
  assumes "0 < sint denom" "sint denom smod 1000 = 0"
  shows "c_div denom 1000 = Inr (word_of_int (sint denom sdiv 1000)) \<and>
         sint (word_of_int (sint denom sdiv 1000) :: int32) = sint denom div 1000 \<and>
         0 < sint denom div 1000"
proof -
  have up: "sint denom < 2 ^ 31"
    using sint_lt [of denom] by simp
  have m: "sint denom mod 1000 = 0"
    using assms by (simp add: signed_modulo_int_def sgn_if split: if_splits)
  have q: "sint denom sdiv 1000 = sint denom div 1000"
    using assms(1) by (simp add: signed_divide_int_def sgn_if)
  from m obtain j where j: "sint denom = 1000 * j"
    by (auto simp: mod_eq_0_iff_dvd)
  with assms(1) have "0 < j" by simp
  with j have p: "0 < sint denom div 1000" by simp
  have le: "sint denom div 1000 \<le> sint denom"
    using assms(1) by (intro order_trans [OF zdiv_mono2 [of "sint denom" 1 1000]]) simp_all
  have "sint (word_of_int (sint denom div 1000) :: int32) = sint denom div 1000"
    using p le up by (intro sint_of_int32) auto
  then show ?thesis
    using p q by (simp add: c_div_def)
qed

lemma real_time_sleep_pos_denom:
  fixes denom :: int32
  assumes "0 < sint denom"
  shows "real_time_sleep F INTR_ON cur num denom s =
     (if 0 < sint (num * F) sdiv sint denom
      then timer_sleep INTR_ON cur (word_of_int (sint (num * F) sdiv sint denom)) s
      else if sint denom smod 1000 \<noteq> 0 then Inl Assertion_failed
      else Inr (s\<lparr>spins := spins s +
        nat (sint (word_of_int (sint (ucast (loops_per_tick s) * num) sdiv 1000) * F)
             sdiv (sint denom div 1000))\<rparr>))"
proof -
  have d64: "0 < sint (scast denom :: int64)"
    using assms by (simp add: sint_scast32)
  have q: "c_div (num * F) (scast denom) =
             Inr (word_of_int (sint (num * F) sdiv sint denom))"
    using c_div_pos [OF d64, of "num * F"] by (simp add: sint_scast32)
  have sq: "sint (word_of_int (sint (num * F) sdiv sint denom) :: int64) =
              sint (num * F) sdiv sint denom"
    using sint_c_div_pos64 [OF d64, of "num * F"] by (simp add: sint_scast32)
  show ?thesis
  proof (cases "0 < sint (num * F) sdiv sint denom")
    case True
    then show ?thesis
      by (simp add: real_time_sleep_def q word_sless_alt sq)
  next
    case nonpos: False
    show ?thesis
    proof (cases "sint denom smod 1000 = 0")
      case False
      with nonpos show ?thesis
        by (simp add: real_time_sleep_def q word_sless_alt sq c_mod_1000 c_mod_1000_zero)
    next
      case True
      note d = denom_div_1000 [OF assms True]
      let ?a = "word_of_int (sint (ucast (loops_per_tick s) * num :: int64) sdiv 1000) :: int64"
      let ?d = "word_of_int (sint denom sdiv 1000) :: int32"
      have a: "c_div (ucast (loops_per_tick s) * num :: int64) 1000 = Inr ?a"
        by (simp add: c_div_def)
      have dpos: "0 < sint (scast ?d :: int64)"
        using d by (simp add: sint_scast32)
      have l: "c_div (?a * F) (scast ?d) =
                 Inr (word_of_int (sint (?a * F) sdiv sint (scast ?d :: int64)))"
        by (rule c_div_pos [OF dpos])
      have sl: "sint (word_of_int (sint (?a * F) sdiv sint (scast ?d :: int64)) :: int64) =
                  sint (?a * F) sdiv (sint denom div 1000)"
        using sint_c_div_pos64 [OF dpos, of "?a * F"] d by (simp add: sint_scast32)
      from nonpos True show ?thesis
        by (simp add: real_time_sleep_def q word_sless_alt sq c_mod_1000 a d l sl busy_wait_eq)
    qed
  qed
qed

lemma busy_loops_exact:
  fixes denom :: int32 and num F :: int64 and lpt :: uint32
  assumes "0 \<le> sint num" "0 < sint F" "sint F \<le> 1000" "sint num * sint F < sint denom"
  shows "sint (ucast lpt * num) = uint lpt * sint num \<and>
         sint (word_of_int (uint lpt * sint num sdiv 1000) * F) =
           uint lpt * sint num div 1000 * sint F \<and>
         sint (num * F) sdiv sint denom = 0"
proof -
  have dlt: "sint denom < 2 ^ 31"
    using sint_lt [of denom] by simp
  have "sint num * 1 \<le> sint num * sint F"
    using assms(1,2) by (intro mult_left_mono) simp_all
  with assms(4) dlt have nlt: "sint num < 2 ^ 31" by simp
  have l0: "0 \<le> uint lpt" by simp
  have llt: "uint lpt < 2 ^ 32"
    using uint_lt2p [of lpt] by simp
  let ?A = "uint lpt * sint num"
  have A0: "0 \<le> ?A"
    using assms(1) by simp
  have "?A \<le> uint lpt * 2 ^ 31"
    using nlt l0 by (intro mult_left_mono) simp_all
  also have "\<dots> < 2 ^ 32 * 2 ^ 31"
    using llt by (intro mult_strict_right_mono) simp_all
  finally have Alt: "?A < 2 ^ 63" by simp
  have sA: "sint (ucast lpt * num :: int64) = ?A"
    using A0 Alt by (simp add: sint_mult64 sint_ucast32)
  have q: "?A sdiv 1000 = ?A div 1000"
    using A0 by (simp add: signed_divide_int_def sgn_if)
  have q0: "0 \<le> ?A div 1000"
    using A0 by (simp add: pos_imp_zdiv_nonneg_iff)
  have "?A div 1000 * 1000 = ?A - ?A mod 1000"
    by (simp add: minus_mod_eq_div_mult)
  moreover have "0 \<le> ?A mod 1000" by simp
  ultimately have qle: "?A div 1000 * 1000 \<le> ?A" by linarith
  have "?A div 1000 * sint F \<le> ?A div 1000 * 1000"
    using q0 assms(3) by (intro mult_left_mono) simp_all
  with qle Alt have Blt: "?A div 1000 * sint F < 2 ^ 63" by simp
  have B0: "0 \<le> ?A div 1000 * sint F"
    using q0 assms(2) by simp
  have qlt: "?A div 1000 < 2 ^ 63"
    using qle Alt q0 by simp
  have sa: "sint (word_of_int (?A div 1000) :: int64) = ?A div 1000"
    using q0 qlt by (intro sint_of_int64) simp_all
  have sB: "sint (word_of_int (?A sdiv 1000) * F) = ?A div 1000 * sint F"
    using B0 Blt by (simp add: q sint_mult64 sa)
  have P0: "0 \<le> sint num * sint F"
    using assms(1,2) by simp
  have Plt: "sint num * sint F < 2 ^ 63"
    using assms(4) dlt by simp
  have sP: "sint (num * F) = sint num * sint F"
    using P0 Plt by (simp add: sint_mult64)
  have dpos: "0 < sint denom"
    using P0 assms(4) by simp
  have "sint (num * F) sdiv sint denom = 0"
    using P0 assms(4) dpos by (simp add: sP signed_divide_int_def sgn_if)
  with sA sB show ?thesis by simp
qed

lemma busy_wait_quotient:
  fixes a :: int64
  assumes "0 < d" and "d < 2 ^ 63"
  shows "busy_wait (word_of_int (sint a sdiv d)) = nat (sint a sdiv d)"
proof -
  have sd: "sint (word_of_int d :: int64) = d"
    using assms by (intro sint_of_int64) simp_all
  then have "0 < sint (word_of_int d :: int64)"
    using assms(1) by simp
  from sint_c_div_pos64 [OF this, of a] show ?thesis
    by (simp add: busy_wait_eq sd)
qed

lemma real_time_sleep_sub_tick:
  fixes denom :: int32
  assumes pos: "0 < sint denom" and m: "sint denom smod 1000 = 0"
    and h: "0 \<le> sint num" "0 < sint F" "sint F \<le> 1000" "sint num * sint F < sint denom"
  shows "real_time_sleep F INTR_ON cur num denom s =
      Inr (s\<lparr>spins := spins s +
        nat (uint (loops_per_tick s) * sint num div 1000 * sint F div (sint denom div 1000))\<rparr>)"
proof -
  note e = busy_loops_exact [OF h, of "loops_per_tick s"]
  note d = denom_div_1000 [OF pos m]
  have B0: "0 \<le> uint (loops_per_tick s) * sint num div 1000 * sint F"
    using h(1,2) by (simp add: pos_imp_zdiv_nonneg_iff)
  have "(uint (loops_per_tick s) * sint num div 1000 * sint F) sdiv (sint denom div 1000) =
        uint (loops_per_tick s) * sint num div 1000 * sint F div (sint denom div 1000)"
    using B0 d by (simp add: signed_divide_int_def sgn_if)
  then show ?thesis
    using m e by (simp add: real_time_sleep_pos_denom [OF pos])
qed

lemma real_time_sleep_three:
  fixes denom :: int32
  assumes "denom = 1000 \<or> denom = 1000000 \<or> denom = 1000000000"
  shows "sint (word_of_int (sint (num * F) sdiv sint denom) :: int64) =
           sint (num * F) sdiv sint denom \<and>
         (1 \<le> sint (num * F) sdiv sint denom \<longrightarrow>
            real_time_sleep F INTR_ON cur num denom s =
              timer_sleep INTR_ON cur (word_of_int (sint (num * F) sdiv sint denom)) s) \<and>
         (sint (num * F) sdiv sint denom < 1 \<longrightarrow>
            real_time_sleep F INTR_ON cur num denom s =
              Inr (s\<lparr>spins := spins s +
                busy_wait (word_of_int
                  (sint (word_of_int (sint (ucast (loops_per_tick s) * num) sdiv 1000) * F)
                   sdiv (sint denom div 1000)))\<rparr>))"
proof -
  from assms have pos: "0 < sint denom" and m: "sint denom smod 1000 = 0"
    by (auto simp: signed_modulo_int_def)
  have d64: "0 < sint (scast denom :: int64)"
    using pos by (simp add: sint_scast32)
  have q: "sint (word_of_int (sint (num * F) sdiv sint denom) :: int64) =
          sint (num * F) sdiv sint denom"
    using sint_c_div_pos64 [OF d64, of "num * F"] by (simp add: sint_scast32)
  from assms have "0 < sint denom div 1000" "sint denom div 1000 < 2 ^ 63"
    by auto
  note b = busy_wait_quotient [OF this]
  show ?thesis
    using m q by (simp add: real_time_sleep_pos_denom [OF pos] b)
qed

lemma sdiv_truncates:
  "(k :: int) sdiv l = sgn k * sgn l * (\<bar>k\<bar> div \<bar>l\<bar>)"
  by (simp add: signed_divide_int_def)

text \<open>
  Claim C5. \<^verbatim>\<open>timer_msleep\<close>, \<^verbatim>\<open>timer_usleep\<close> and \<^verbatim>\<open>timer_nsleep\<close> compute the tick count
  \<^verbatim>\<open>duration * TIMER_FREQ / denominator\<close> with the denominators 1000, 1000000 and
  1000000000: the product is the \<^verbatim>\<open>int64_t\<close> product and the division truncates towards
  zero (when the product does not overflow, the quotient is the sign of the product times
  the floored quotient of its absolute value). They call \<^verbatim>\<open>timer_sleep\<close> with that count
  exactly when it is at least 1; otherwise the thread is not blocked and the only effect
  is the call \<^verbatim>\<open>busy_wait (loops_per_tick * num / 1000 * TIMER_FREQ / (denom / 1000))\<close>, whose
  iterations are added to \<open>spins\<close>. At \<^verbatim>\<open>TIMER_FREQ = 100\<close>, \<^verbatim>\<open>timer_msleep (1000)\<close> is
  \<^verbatim>\<open>timer_sleep (100)\<close>, a deadline 100 ticks ahead, and \<^verbatim>\<open>timer_usleep (1)\<close> runs the
  busy-wait loop \<^verbatim>\<open>loops_per_tick / 1000 * 100 / 1000\<close> times and returns.
\<close>

theorem real_time_sleep_conversion:
  "(\<forall>(f, D) \<in> {(timer_msleep, 1000 :: int), (timer_usleep, 1000000),
                  (timer_nsleep, 1000000000)}.
      sint (word_of_int (sint (num * F) sdiv D) :: int64) = sint (num * F) sdiv D \<and>
      (1 \<le> sint (num * F) sdiv D \<longrightarrow>
         f F INTR_ON cur num s =
           timer_sleep INTR_ON cur (word_of_int (sint (num * F) sdiv D)) s) \<and>
      (sint (num * F) sdiv D < 1 \<longrightarrow>
         f F INTR_ON cur num s =
           Inr (s\<lparr>spins := spins s +
             busy_wait (word_of_int
               (sint (word_of_int (sint (ucast (loops_per_tick s) * num) sdiv 1000) * F)
                sdiv (D div 1000)))\<rparr>)) \<and>
      (- (2 ^ 63) \<le> sint num * sint F \<and> sint num * sint F < 2 ^ 63 \<longrightarrow>
         sint (num * F) sdiv D =
           sgn (sint num * sint F) * (\<bar>sint num * sint F\<bar> div D))) \<and>
   timer_msleep 100 INTR_ON cur 1000 s = timer_sleep INTR_ON cur 100 s \<and>
   timer_msleep 100 INTR_ON cur 1000 s =
     Inr (timer_sleep_block cur (timer_ticks s + 100) s) \<and>
   timer_usleep 100 INTR_ON cur 1 s =
     Inr (s\<lparr>spins := spins s + nat (uint (loops_per_tick s) div 1000 * 100 div 1000)\<rparr>)"
proof -
  have tr: "- (2 ^ 63) \<le> sint num * sint F \<and> sint num * sint F < 2 ^ 63 \<longrightarrow>
      sint (num * F) sdiv D = sgn (sint num * sint F) * (\<bar>sint num * sint F\<bar> div D)"
    if "0 < D" for D
    using that by (auto simp: sint_mult64 sdiv_truncates)
  have ms: "sint (word_of_int (sint (num * F) sdiv 1000) :: int64) = sint (num * F) sdiv 1000 \<and>
      (1 \<le> sint (num * F) sdiv 1000 \<longrightarrow>
         timer_msleep F INTR_ON cur num s =
           timer_sleep INTR_ON cur (word_of_int (sint (num * F) sdiv 1000)) s) \<and>
      (sint (num * F) sdiv 1000 < 1 \<longrightarrow>
         timer_msleep F INTR_ON cur num s =
           Inr (s\<lparr>spins := spins s +
             busy_wait (word_of_int
               (sint (word_of_int (sint (ucast (loops_per_tick s) * num) sdiv 1000) * F)
                sdiv (1000 div 1000)))\<rparr>))"
    for num F s
    using real_time_sleep_three [of 1000 num F cur s] by (simp add: timer_msleep_def)
  have us: "sint (word_of_int (sint (num * F) sdiv 1000000) :: int64) = sint (num * F) sdiv 1000000 \<and>
      (1 \<le> sint (num * F) sdiv 1000000 \<longrightarrow>
         timer_usleep F INTR_ON cur num s =
           timer_sleep INTR_ON cur (word_of_int (sint (num * F) sdiv 1000000)) s) \<and>
      (sint (num * F) sdiv 1000000 < 1 \<longrightarrow>
         timer_usleep F INTR_ON cur num s =
           Inr (s\<lparr>spins := spins s +
             busy_wait (word_of_int
               (sint (word_of_int (sint (ucast (loops_per_tick s) * num) sdiv 1000) * F)
                sdiv (1000000 div 1000)))\<rparr>))"
    for num F s
    using real_time_sleep_three [of 1000000 num F cur s] by (simp add: timer_usleep_def)
  have ns: "sint (word_of_int (sint (num * F) sdiv 1000000000) :: int64) = sint (num * F) sdiv 1000000000 \<and>
      (1 \<le> sint (num * F) sdiv 1000000000 \<longrightarrow>
         timer_nsleep F INTR_ON cur num s =
           timer_sleep INTR_ON cur (word_of_int (sint (num * F) sdiv 1000000000)) s) \<and>
      (sint (num * F) sdiv 1000000000 < 1 \<longrightarrow>
         timer_nsleep F INTR_ON cur num s =
           Inr (s\<lparr>spins := spins s +
             busy_wait (word_of_int
               (sint (word_of_int (sint (ucast (loops_per_tick s) * num) sdiv 1000) * F)
                sdiv (1000000000 div 1000)))\<rparr>))"
    for num F s
    using real_time_sleep_three [of 1000000000 num F cur s] by (simp add: timer_nsleep_def)
  have e1: "timer_msleep 100 INTR_ON cur 1000 s = timer_sleep INTR_ON cur 100 s"
    using ms [of 1000 100 s] by (simp add: signed_divide_int_def)
  have e2: "timer_sleep INTR_ON cur 100 s = Inr (timer_sleep_block cur (timer_ticks s + 100) s)"
    by (simp add: timer_sleep_def timer_sleep_wake_def word_sle_eq)
  have e3: "timer_usleep 100 INTR_ON cur 1 s =
      Inr (s\<lparr>spins := spins s + nat (uint (loops_per_tick s) div 1000 * 100 div 1000)\<rparr>)"
    using real_time_sleep_sub_tick [of 1000000 1 100 cur s]
    by (simp add: timer_usleep_def signed_modulo_int_def)
  show ?thesis
    using ms [of num F s] us [of num F s] ns[of num F s] tr [of 1000] tr [of 1000000]
      tr [of 1000000000] e1 e2 e3
    by simp
qed

theorem real_time_sleep_conversion_witness:
  "sint ((2500 :: int64) * 100) sdiv 1000 = 250 \<and>
   timer_msleep 100 INTR_ON 1 2500 calibrated = timer_sleep INTR_ON 1 250 calibrated \<and>
   sint ((- 15 :: int64) * 100) sdiv 1000 = - 1 \<and>
   timer_msleep 100 INTR_ON 1 (- 15) calibrated = Inr calibrated \<and>
   sint ((7 :: int64) * 100) sdiv 1000000 = 0 \<and>
   timer_usleep 100 INTR_ON 1 7 calibrated = Inr (calibrated\<lparr>spins := 734\<rparr>) \<and>
   timer_usleep 100 INTR_ON 1 1 calibrated = Inr (calibrated\<lparr>spins := 104\<rparr>)"
  using real_time_sleep_conversion [of 2500 100 1 calibrated]
    real_time_sleep_conversion [of "- 15" 100 1 calibrated]
    real_time_sleep_conversion [of 7 100 1 calibrated]
  by (simp add: signed_divide_int_def busy_wait_eq calibrated_def boot_def timer_init_def)

text \<open>
  Claim C7. When the tick count is not positive, \<^verbatim>\<open>real_time_sleep\<close> asserts that
  \<^verbatim>\<open>denom\<close> is a multiple of 1000 and fails fatally otherwise. When it is, \<^verbatim>\<open>busy_wait\<close> is
  called with \<^verbatim>\<open>loops_per_tick * num / 1000 * TIMER_FREQ / (denom / 1000)\<close> evaluated from left
  to right, the division by 1000 before the multiplication by \<^verbatim>\<open>TIMER_FREQ\<close>, and makes
  that many iterations (none when the value is negative). For a non-negative duration
  shorter than one tick and \<^verbatim>\<open>TIMER_FREQ\<close> at most 1000 no intermediate result overflows:
  the count is the same expression over the integers.
\<close>

theorem real_time_sleep_busy_wait:
  fixes denom :: int32
  assumes "0 < sint denom" and "sint (num * F) sdiv sint denom \<le> 0"
  shows
    "(sint denom smod 1000 \<noteq> 0 \<longrightarrow>
        real_time_sleep F INTR_ON cur num denom s = Inl Assertion_failed) \<and>
     (sint denom smod 1000 = 0 \<longrightarrow>
        (\<exists>a d loops.
           c_div (ucast (loops_per_tick s) * num) 1000 = Inr a \<and>
           c_div denom 1000 = Inr d \<and>
           c_div (a * F) (scast d) = Inr loops \<and>
           real_time_sleep F INTR_ON cur num denom s =
             Inr (s\<lparr>spins := spins s + nat (sint loops)\<rparr>))) \<and>
     (sint denom smod 1000 = 0 \<and> 0 \<le> sint num \<and> 0 < sint F \<and> sint F \<le> 1000 \<and>
      sint num * sint F < sint denom \<longrightarrow>
        real_time_sleep F INTR_ON cur num denom s =
          Inr (s\<lparr>spins := spins s +
            nat (uint (loops_per_tick s) * sint num div 1000 * sint F
                 div (sint denom div 1000))\<rparr>))"
proof -
  note u = real_time_sleep_pos_denom [OF assms(1), of F cur num s]
  have one: "sint denom smod 1000 \<noteq> 0 \<longrightarrow>
      real_time_sleep F INTR_ON cur num denom s = Inl Assertion_failed"
    using assms(2) by (simp add: u)
  have two: "\<exists>a d loops.
      c_div (ucast (loops_per_tick s) * num) 1000 = Inr a \<and>
      c_div denom 1000 = Inr d \<and>
      c_div (a * F) (scast d) = Inr loops \<and>
      real_time_sleep F INTR_ON cur num denom s =
        Inr (s\<lparr>spins := spins s + nat (sint loops)\<rparr>)"
    if m: "sint denom smod 1000 = 0"
  proof -
    note d = denom_div_1000 [OF assms(1) m]
    let ?a = "word_of_int (sint (ucast (loops_per_tick s) * num :: int64) sdiv 1000) :: int64"
    let ?d = "word_of_int (sint denom sdiv 1000) :: int32"
    have a: "c_div (ucast (loops_per_tick s) * num :: int64) 1000 = Inr ?a"
      by (simp add: c_div_def)
    have dpos: "0 < sint (scast ?d :: int64)"
      using d by (simp add: sint_scast32)
    have l: "c_div (?a * F) (scast ?d) =
               Inr (word_of_int (sint (?a * F) sdiv sint (scast ?d :: int64)))"
      by (rule c_div_pos [OF dpos])
    have sl: "sint (word_of_int (sint (?a * F) sdiv sint (scast ?d :: int64)) :: int64) =
                sint (?a * F) sdiv (sint denom div 1000)"
      using sint_c_div_pos64 [OF dpos, of "?a * F"] d by (simp add: sint_scast32)
    have r: "real_time_sleep F INTR_ON cur num denom s =
        Inr (s\<lparr>spins := spins s +
          nat (sint (word_of_int (sint (?a * F) sdiv sint (scast ?d :: int64)) :: int64))\<rparr>)"
      using assms(2) m by (simp add: u sl)
    from a d l r show ?thesis by blast
  qed
  have three: "real_time_sleep F INTR_ON cur num denom s =
      Inr (s\<lparr>spins := spins s +
        nat (uint (loops_per_tick s) * sint num div 1000 * sint F div (sint denom div 1000))\<rparr>)"
    if m: "sint denom smod 1000 = 0" and h: "0 \<le> sint num" "0 < sint F" "sint F \<le> 1000"
      "sint num * sint F < sint denom"
  proof -
    note e = busy_loops_exact [OF h, of "loops_per_tick s"]
    note d = denom_div_1000 [OF assms(1) m]
    have B0: "0 \<le> uint (loops_per_tick s) * sint num div 1000 * sint F"
      using h(1,2) by (simp add: pos_imp_zdiv_nonneg_iff)
    have "(uint (loops_per_tick s) * sint num div 1000 * sint F) sdiv (sint denom div 1000) =
          uint (loops_per_tick s) * sint num div 1000 * sint F div (sint denom div 1000)"
      using B0 d by (simp add: signed_divide_int_def sgn_if)
    then show ?thesis
      using m e by (simp add: u)
  qed
  from one two three show ?thesis by blast
qed

theorem real_time_sleep_busy_wait_witness:
  "0 < sint (1000000 :: int32) \<and> sint ((5000 :: int64) * 100) sdiv sint (1000000 :: int32) \<le> 0 \<and>
   real_time_sleep 100 INTR_ON 1 5000 1000000 (boot\<lparr>loops_per_tick := 1048576\<rparr>) =
     Inr (boot\<lparr>loops_per_tick := 1048576, spins := 524288\<rparr>) \<and>
   0 < sint (1500 :: int32) \<and> sint ((1 :: int64) * 100) sdiv sint (1500 :: int32) \<le> 0 \<and>
   real_time_sleep 100 INTR_ON 1 1 1500 boot = Inl Assertion_failed"
proof -
  have p1: "0 < sint (1000000 :: int32)" by simp
  have q1: "sint ((5000 :: int64) * 100) sdiv sint (1000000 :: int32) \<le> 0"
    by (simp add: signed_divide_int_def)
  have p2: "0 < sint (1500 :: int32)" by simp
  have q2: "sint ((1 :: int64) * 100) sdiv sint (1500 :: int32) \<le> 0"
    by (simp add: signed_divide_int_def)
  show ?thesis
    using p1 q1 p2 q2
      real_time_sleep_busy_wait [OF p1 q1, of 1 "boot\<lparr>loops_per_tick := 1048576\<rparr>"]
      real_time_sleep_busy_wait [OF p2 q2, of 1 boot]
    by (simp add: signed_modulo_int_def boot_def timer_init_def)
qed

section \<open>The sleep list is sorted and stable\<close>

lemma list_insert_ordered_sorted:
  fixes key :: "'a \<Rightarrow> int"
  assumes "sorted_wrt (\<lambda>a b. key a \<le> key b) xs"
  shows "list_insert_ordered xs c (\<lambda>a b. key a < key b) =
           filter (\<lambda>t. key t \<le> key c) xs @ c # filter (\<lambda>t. key c < key t) xs"
  using assms
proof (induction xs)
  case Nil
  then show ?case by simp
next
  case (Cons e es)
  show ?case
  proof (cases "key c < key e")
    case True
    with Cons.prems have "\<forall>t \<in> set (e # es). key c < key t"
      by auto
    then have "filter (\<lambda>t. key t \<le> key c) (e # es) = []"
      "filter (\<lambda>t. key c < key t) (e # es) = e # es"
      by (auto simp: filter_empty_conv)
    with True show ?thesis by simp
  next
    case False
    with Cons show ?thesis by simp
  qed
qed

lemma timer_sleep_block_list:
  assumes "sorted_wrt (\<lambda>a b. wake_tick s a \<le>s wake_tick s b) (sleep_list s)"
    and "c \<notin> set (sleep_list s)"
  shows "sleep_list (timer_sleep_block c w s) =
           filter (\<lambda>t. wake_tick s t \<le>s w) (sleep_list s) @
           c # filter (\<lambda>t. w <s wake_tick s t) (sleep_list s)"
proof -
  let ?wt = "(wake_tick s)(c := w)"
  let ?key = "\<lambda>t. sint (?wt t)"
  have same: "\<And>t. t \<in> set (sleep_list s) \<Longrightarrow> ?wt t = wake_tick s t"
    using assms(2) by auto
  have "sorted_wrt (\<lambda>a b. ?key a \<le> ?key b) (sleep_list s)"
    using assms(1) same by (auto simp: sorted_wrt_iff_nth_less word_sle_eq)
  from list_insert_ordered_sorted [OF this, of c]
  have "list_insert_ordered (sleep_list s) c (\<lambda>a b. ?wt a <s ?wt b) =
          filter (\<lambda>t. ?wt t \<le>s w) (sleep_list s) @ c # filter (\<lambda>t. w <s ?wt t) (sleep_list s)"
    by (simp add: word_sle_eq word_sless_alt)
  moreover have "filter (\<lambda>t. ?wt t \<le>s w) (sleep_list s) =
      filter (\<lambda>t. wake_tick s t \<le>s w) (sleep_list s)"
    by (rule filter_cong) (use assms(2) in auto)
  moreover have "filter (\<lambda>t. w <s ?wt t) (sleep_list s) =
      filter (\<lambda>t. w <s wake_tick s t) (sleep_list s)"
    by (rule filter_cong) (use assms(2) in auto)
  moreover have "wake_less (s\<lparr>wake_tick := ?wt\<rparr>) = (\<lambda>a b. ?wt a <s ?wt b)"
    by (simp add: fun_eq_iff wake_less_def)
  ultimately show ?thesis
    by (simp add: timer_sleep_block_def thread_block_def Let_def)
qed

lemma timer_sleep_block_fields:
  "wake_tick (timer_sleep_block c w s) = (wake_tick s)(c := w) \<and>
   status (timer_sleep_block c w s) = (status s)(c := Blocked) \<and>
   trace (timer_sleep_block c w s) = trace s @ [Thread_block c] \<and>
   ticks (timer_sleep_block c w s) = ticks s"
  by (simp add: timer_sleep_block_def thread_block_def Let_def)

lemma asleep_append: "asleep (tr @ ev) = foldl note_event (asleep tr) ev"
  by (simp add: asleep_def)

lemma foldl_unblocks:
  "foldl note_event q (map Thread_unblock ws) = filter (\<lambda>t. t \<notin> set ws) q"
proof (induction ws arbitrary: q)
  case Nil
  then show ?case by simp
next
  case (Cons c ws)
  have "filter (\<lambda>t. t \<notin> set ws) (removeAll c q) = filter (\<lambda>t. t \<notin> set (c # ws)) q"
    by (induction q) auto
  with Cons show ?case by simp
qed

lemma distinct_dropWhile_filter:
  "distinct xs \<Longrightarrow> dropWhile P xs = filter (\<lambda>x. x \<notin> set (takeWhile P xs)) xs"
proof (induction xs)
  case Nil
  then show ?case by simp
next
  case (Cons x xs)
  show ?case
  proof (cases "P x")
    case True
    have "filter (\<lambda>y. y \<noteq> x \<and> y \<notin> set (takeWhile P xs)) xs =
          filter (\<lambda>y. y \<notin> set (takeWhile P xs)) xs"
      using Cons.prems by (intro filter_cong) auto
    with True Cons show ?thesis by simp
  next
    case False
    then show ?thesis by simp
  qed
qed

lemma sorted_split:
  fixes key :: "'a \<Rightarrow> int"
  assumes "sorted_wrt (\<lambda>a b. key a \<le> key b) xs"
  shows "filter (\<lambda>t. key t \<le> w) xs @ filter (\<lambda>t. w < key t) xs = xs"
  using assms
proof (induction xs)
  case Nil
  then show ?case by simp
next
  case (Cons e es)
  show ?case
  proof (cases "key e \<le> w")
    case True
    with Cons show ?thesis by simp
  next
    case False
    with Cons.prems have "\<forall>t \<in> set (e # es). w < key t"
      by auto
    then have "filter (\<lambda>t. key t \<le> w) (e # es) = []" "filter (\<lambda>t. w < key t) (e # es) = e # es"
      by (auto simp: filter_empty_conv)
    then show ?thesis by simp
  qed
qed

lemma sleep_inv_boot: "sleep_inv boot_system"
  by (simp add: sleep_inv_def boot_system_def boot_def timer_init_def asleep_def)

lemma sleep_inv_tick:
  assumes "sleep_inv \<sigma>"
  shows "sleep_inv (\<sigma>\<lparr>kernel := timer_interrupt (kernel \<sigma>)\<rparr>)"
proof -
  let ?k = "kernel \<sigma>"
  let ?due = "\<lambda>t. wake_tick ?k t \<le>s ticks ?k + 1"
  let ?woken = "takeWhile ?due (sleep_list ?k)"
  let ?rest = "dropWhile ?due (sleep_list ?k)"
  from assms have dist: "distinct (sleep_list ?k)"
    and blk: "\<forall>t \<in> set (sleep_list ?k). status ?k t = Blocked \<and> wake_local \<sigma> t = None"
    and srt: "sorted_wrt (\<lambda>a b. wake_tick ?k a \<le>s wake_tick ?k b) (sleep_list ?k)"
    and sets: "set (asleep (trace ?k)) = set (sleep_list ?k)"
    and fifo: "\<forall>w. filter (\<lambda>t. wake_tick ?k t = w) (sleep_list ?k) =
                   filter (\<lambda>t. wake_tick ?k t = w) (asleep (trace ?k))"
    by (simp_all add: sleep_inv_def)
  have rest: "?rest = filter (\<lambda>t. t \<notin> set ?woken) (sleep_list ?k)"
    by (rule distinct_dropWhile_filter [OF dist])
  have asl: "asleep (trace (timer_interrupt ?k)) =
               filter (\<lambda>t. t \<notin> set ?woken) (asleep (trace ?k))"
    by (simp add: timer_interrupt_trace asleep_append foldl_unblocks)
  have 1: "distinct ?rest"
    using dist by simp
  have 2: "\<forall>t \<in> set ?rest. status (timer_interrupt ?k) t = Blocked \<and> wake_local \<sigma> t = None"
    using blk by (auto simp: rest timer_interrupt_status)
  have "sorted_wrt (\<lambda>a b. wake_tick ?k a \<le>s wake_tick ?k b)
          (drop (length ?woken) (sleep_list ?k))"
    by (rule sorted_wrt_drop [OF srt])
  then have 3: "sorted_wrt (\<lambda>a b. wake_tick ?k a \<le>s wake_tick ?k b) ?rest"
    by (simp add: dropWhile_eq_drop)
  have 4: "set (asleep (trace (timer_interrupt ?k))) = set ?rest"
    using sets by (simp add: asl rest)
  have 5: "filter (\<lambda>t. wake_tick ?k t = w) ?rest =
           filter (\<lambda>t. wake_tick ?k t = w) (asleep (trace (timer_interrupt ?k)))" for w
  proof -
    have "filter (\<lambda>t. wake_tick ?k t = w) ?rest =
          filter (\<lambda>t. t \<notin> set ?woken) (filter (\<lambda>t. wake_tick ?k t = w) (sleep_list ?k))"
      by (subst rest) (simp add: conj_commute)
    also have "\<dots> =
          filter (\<lambda>t. t \<notin> set ?woken) (filter (\<lambda>t. wake_tick ?k t = w) (asleep (trace ?k)))"
      using fifo by simp
    also have "\<dots> = filter (\<lambda>t. wake_tick ?k t = w) (asleep (trace (timer_interrupt ?k)))"
      by (subst asl) (simp add: conj_commute)
    finally show ?thesis .
  qed
  show ?thesis
    unfolding sleep_inv_def
    using 1 2 3 4 5
    by (simp add: timer_interrupt_sleep_list timer_interrupt_keeps)
qed

lemma sleep_inv_call:
  assumes "sleep_inv \<sigma>" and "status (kernel \<sigma>) c \<noteq> Blocked"
  shows "sleep_inv (\<sigma>\<lparr>wake_local := (wake_local \<sigma>)(c := Some w)\<rparr>)"
  using assms by (auto simp: sleep_inv_def)

lemma sleep_inv_block:
  assumes inv: "sleep_inv \<sigma>" and loc: "wake_local \<sigma> c = Some w"
  shows "sleep_inv \<lparr>kernel = timer_sleep_block c w (kernel \<sigma>),
                    wake_local = (wake_local \<sigma>)(c := None)\<rparr>"
proof -
  let ?k = "kernel \<sigma>"
  let ?k' = "timer_sleep_block c w ?k"
  let ?L1 = "filter (\<lambda>t. wake_tick ?k t \<le>s w) (sleep_list ?k)"
  let ?L2 = "filter (\<lambda>t. w <s wake_tick ?k t) (sleep_list ?k)"
  from inv have dist: "distinct (sleep_list ?k)"
    and blk: "\<forall>t \<in> set (sleep_list ?k). status ?k t = Blocked \<and> wake_local \<sigma> t = None"
    and srt: "sorted_wrt (\<lambda>a b. wake_tick ?k a \<le>s wake_tick ?k b) (sleep_list ?k)"
    and sets: "set (asleep (trace ?k)) = set (sleep_list ?k)"
    and fifo: "\<forall>v. filter (\<lambda>t. wake_tick ?k t = v) (sleep_list ?k) =
                   filter (\<lambda>t. wake_tick ?k t = v) (asleep (trace ?k))"
    by (simp_all add: sleep_inv_def)
  from blk loc have notin: "c \<notin> set (sleep_list ?k)"
    by auto
  then have notin': "c \<notin> set (asleep (trace ?k))"
    using sets by simp
  note f = timer_sleep_block_fields [of c w ?k]
  have lst: "sleep_list ?k' = ?L1 @ c # ?L2"
    by (rule timer_sleep_block_list [OF srt notin])
  have "sorted_wrt (\<lambda>a b. sint (wake_tick ?k a) \<le> sint (wake_tick ?k b)) (sleep_list ?k)"
    using srt by (simp add: word_sle_eq)
  from sorted_split [OF this, of "sint w"]
  have split: "?L1 @ ?L2 = sleep_list ?k"
    by (simp add: word_sle_eq word_sless_alt)
  have same: "wake_tick ?k' t = wake_tick ?k t" if "t \<noteq> c" for t
    using that by (simp add: f)
  have 1: "distinct (sleep_list ?k')"
    using dist notin by (auto simp: lst word_sle_eq word_sless_alt)
  have 2: "\<forall>t \<in> set (sleep_list ?k').
             status ?k' t = Blocked \<and> ((wake_local \<sigma>)(c := None)) t = None"
    using blk by (auto simp: lst f)
  have srt': "sorted_wrt (\<lambda>a b. wake_tick ?k' a \<le>s wake_tick ?k' b) (sleep_list ?k)"
    using notin by (intro sorted_wrt_mono_rel [OF _ srt]) (auto simp: f)
  have s1: "sorted_wrt (\<lambda>a b. wake_tick ?k' a \<le>s wake_tick ?k' b) ?L1"
    by (rule sorted_wrt_filter [OF srt'])
  have s2: "sorted_wrt (\<lambda>a b. wake_tick ?k' a \<le>s wake_tick ?k' b) ?L2"
    by (rule sorted_wrt_filter [OF srt'])
  have 3: "sorted_wrt (\<lambda>a b. wake_tick ?k' a \<le>s wake_tick ?k' b) (sleep_list ?k')"
    using s1 s2 notin
    by (auto simp: lst sorted_wrt_append f word_sle_eq word_sless_alt)
  have 4: "set (asleep (trace ?k')) = set (sleep_list ?k')"
    using sets by (auto simp: lst f asleep_append word_sle_eq word_sless_alt)
  have 5: "filter (\<lambda>t. wake_tick ?k' t = v) (sleep_list ?k') =
           filter (\<lambda>t. wake_tick ?k' t = v) (asleep (trace ?k'))" for v
  proof -
    let ?P = "\<lambda>t. wake_tick ?k t = v"
    let ?P' = "\<lambda>t. wake_tick ?k' t = v"
    have c1: "filter ?P' xs = filter ?P xs" if "c \<notin> set xs" for xs
      using that by (intro filter_cong) (auto simp: f)
    have n1: "c \<notin> set ?L1" and n2: "c \<notin> set ?L2"
      using notin by simp_all
    have pc: "?P' c \<longleftrightarrow> w = v"
      by (simp add: f)
    have "filter ?P ?L1 @ filter ?P ?L2 = filter ?P (?L1 @ ?L2)"
      by (simp only: filter_append)
    also have "\<dots> = filter ?P (asleep (trace ?k))"
      using fifo by (simp only: split)
    finally have old: "filter ?P ?L1 @ filter ?P ?L2 = filter ?P (asleep (trace ?k))" .
    have lhs: "filter ?P' (sleep_list ?k') =
                 filter ?P ?L1 @ (if w = v then [c] else []) @ filter ?P ?L2"
      unfolding lst filter_append filter.simps c1 [OF n1] c1 [OF n2] pc by simp
    have tr: "asleep (trace ?k') = asleep (trace ?k) @ [c]"
      by (simp add: f asleep_append)
    have rhs: "filter ?P' (asleep (trace ?k')) =
                 filter ?P (asleep (trace ?k)) @ (if w = v then [c] else [])"
      unfolding tr filter_append filter.simps c1 [OF notin'] pc by simp
    show ?thesis
    proof (cases "w = v")
      case True
      have "\<forall>t \<in> set ?L2. \<not> ?P t"
        using True by (auto simp: word_sless_alt)
      then have e: "filter ?P ?L2 = []"
        by (simp only: filter_empty_conv)
      from old have "filter ?P ?L1 = filter ?P (asleep (trace ?k))"
        unfolding e by simp
      then show ?thesis
        unfolding lhs rhs e using True by simp
    next
      case False
      then show ?thesis
        unfolding lhs rhs using old by simp
    qed
  qed
  show ?thesis
    unfolding sleep_inv_def using 1 2 3 4 5 by simp
qed

lemma sleep_inv_step:
  assumes "sleep_inv \<sigma>" and "step a \<sigma> = Some \<sigma>'"
  shows "sleep_inv \<sigma>'"
proof (cases a)
  case Timer_tick
  with assms show ?thesis
    by (auto intro: sleep_inv_tick)
next
  case (Call_sleep c lvl n)
  with assms show ?thesis
    by (auto split: if_splits sum.splits option.splits intro: sleep_inv_call)
next
  case (Enter_block c)
  with assms show ?thesis
    by (auto split: option.splits intro: sleep_inv_block)
qed

lemma sleep_inv_run:
  "sleep_inv \<sigma> \<Longrightarrow> run acts \<sigma> = Some \<sigma>' \<Longrightarrow> sleep_inv \<sigma>'"
  by (induction acts arbitrary: \<sigma>) (auto split: option.splits dest: sleep_inv_step)

lemma sorted_earlier_first:
  assumes "sorted_wrt (\<lambda>a b. wake_tick k a \<le>s wake_tick k b) l"
  shows "\<forall>i j. i < length l \<and> j < length l \<and> wake_tick k (l ! i) <s wake_tick k (l ! j) \<longrightarrow>
           i < j"
proof (intro allI impI, elim conjE)
  fix i j
  assume i: "i < length l" and j: "j < length l"
    and lt: "wake_tick k (l ! i) <s wake_tick k (l ! j)"
  show "i < j"
  proof (rule ccontr)
    assume "\<not> i < j"
    then consider "j = i" | "j < i" by linarith
    then show False
    proof cases
      case 1
      with lt show False by (simp add: word_sless_alt)
    next
      case 2
      with assms i have "wake_tick k (l ! j) \<le>s wake_tick k (l ! i)"
        by (simp add: sorted_wrt_iff_nth_less)
      with lt show False by (simp add: word_sless_alt word_sle_eq)
    qed
  qed
qed

text \<open>
  Claim C3. In every state the kernel reaches from boot by calls of \<^verbatim>\<open>timer_sleep\<close> and
  timer interrupts, the sleep list is sorted in ascending order of \<^verbatim>\<open>wake_tick\<close> (signed
  comparison), so an entry with a strictly smaller deadline stands in front of one with a
  greater deadline; it holds exactly the threads asleep, each once, and for every
  deadline the entries with that deadline stand in the order in which they went to sleep. A thread
  that enters the list is put behind every entry whose deadline is at most its own and
  in front of every entry with a greater one. The next interrupt unblocks a prefix of the
  list in list order, so an entry is never woken before one that stands in front of it.
\<close>

theorem sleep_list_sorted_stable:
  assumes "run acts boot_system = Some \<sigma>"
  shows
    "sorted_wrt (\<lambda>a b. wake_tick (kernel \<sigma>) a \<le>s wake_tick (kernel \<sigma>) b)
       (sleep_list (kernel \<sigma>)) \<and>
     (\<forall>i j. i < length (sleep_list (kernel \<sigma>)) \<and> j < length (sleep_list (kernel \<sigma>)) \<and>
        wake_tick (kernel \<sigma>) (sleep_list (kernel \<sigma>) ! i)
          <s wake_tick (kernel \<sigma>) (sleep_list (kernel \<sigma>) ! j) \<longrightarrow> i < j) \<and>
     distinct (sleep_list (kernel \<sigma>)) \<and>
     set (sleep_list (kernel \<sigma>)) = set (asleep (trace (kernel \<sigma>))) \<and>
     (\<forall>w. filter (\<lambda>t. wake_tick (kernel \<sigma>) t = w) (sleep_list (kernel \<sigma>)) =
          filter (\<lambda>t. wake_tick (kernel \<sigma>) t = w) (asleep (trace (kernel \<sigma>)))) \<and>
     (\<forall>c w. wake_local \<sigma> c = Some w \<longrightarrow>
        sleep_list (timer_sleep_block c w (kernel \<sigma>)) =
          filter (\<lambda>t. wake_tick (kernel \<sigma>) t \<le>s w) (sleep_list (kernel \<sigma>)) @
          c # filter (\<lambda>t. w <s wake_tick (kernel \<sigma>) t) (sleep_list (kernel \<sigma>))) \<and>
     (\<exists>j. drop (length (trace (kernel \<sigma>))) (trace (timer_interrupt (kernel \<sigma>))) =
            Thread_tick (ticks (kernel \<sigma>) + 1) #
              map Thread_unblock (take j (sleep_list (kernel \<sigma>))) \<and>
          sleep_list (timer_interrupt (kernel \<sigma>)) = drop j (sleep_list (kernel \<sigma>)))"
proof -
  let ?k = "kernel \<sigma>"
  have inv: "sleep_inv \<sigma>"
    by (rule sleep_inv_run [OF sleep_inv_boot assms])
  then have dist: "distinct (sleep_list ?k)"
    and blk: "\<forall>t \<in> set (sleep_list ?k). status ?k t = Blocked \<and> wake_local \<sigma> t = None"
    and srt: "sorted_wrt (\<lambda>a b. wake_tick ?k a \<le>s wake_tick ?k b) (sleep_list ?k)"
    and sets: "set (asleep (trace ?k)) = set (sleep_list ?k)"
    and fifo: "\<forall>w. filter (\<lambda>t. wake_tick ?k t = w) (sleep_list ?k) =
                   filter (\<lambda>t. wake_tick ?k t = w) (asleep (trace ?k))"
    by (simp_all add: sleep_inv_def)
  have ins: "\<forall>c w. wake_local \<sigma> c = Some w \<longrightarrow>
      sleep_list (timer_sleep_block c w ?k) =
        filter (\<lambda>t. wake_tick ?k t \<le>s w) (sleep_list ?k) @
        c # filter (\<lambda>t. w <s wake_tick ?k t) (sleep_list ?k)"
  proof (intro allI impI)
    fix c w
    assume "wake_local \<sigma> c = Some w"
    with blk have "c \<notin> set (sleep_list ?k)" by auto
    then show "sleep_list (timer_sleep_block c w ?k) =
        filter (\<lambda>t. wake_tick ?k t \<le>s w) (sleep_list ?k) @
        c # filter (\<lambda>t. w <s wake_tick ?k t) (sleep_list ?k)"
      by (rule timer_sleep_block_list [OF srt])
  qed
  let ?due = "\<lambda>t. wake_tick ?k t \<le>s ticks ?k + 1"
  obtain j where tw: "takeWhile ?due (sleep_list ?k) = take j (sleep_list ?k)"
    and dw: "dropWhile ?due (sleep_list ?k) = drop j (sleep_list ?k)"
    using takeWhile_eq_take [of ?due "sleep_list ?k"] dropWhile_eq_drop [of ?due "sleep_list ?k"]
    by blast
  have "drop (length (trace ?k)) (trace (timer_interrupt ?k)) =
          Thread_tick (ticks ?k + 1) # map Thread_unblock (take j (sleep_list ?k)) \<and>
        sleep_list (timer_interrupt ?k) = drop j (sleep_list ?k)"
    by (simp add: timer_interrupt_trace timer_interrupt_sleep_list tw dw)
  then have pre: "\<exists>j. drop (length (trace ?k)) (trace (timer_interrupt ?k)) =
            Thread_tick (ticks ?k + 1) # map Thread_unblock (take j (sleep_list ?k)) \<and>
          sleep_list (timer_interrupt ?k) = drop j (sleep_list ?k)"
    by (rule exI)
  note first = sorted_earlier_first [OF srt]
  from srt first dist sets [symmetric] fifo ins pre show ?thesis
    by (iprover intro: conjI)
qed

lemma four_sleepers_run:
  "\<exists>\<sigma>. run four_sleepers boot_system = Some \<sigma> \<and> sleep_list (kernel \<sigma>) = [2, 4, 1, 3] \<and>
     asleep (trace (kernel \<sigma>)) = [1, 2, 3, 4] \<and>
     map (wake_tick (kernel \<sigma>)) [2, 4, 1, 3] = [3, 3, 5, 5]"
  by (simp add: four_sleepers_def boot_system_def boot_def timer_init_def timer_sleep_wake_def
      timer_sleep_block_def thread_block_def timer_ticks_def wake_less_def Let_def asleep_def
      word_sle_eq word_sless_alt)

theorem sleep_list_sorted_stable_witness:
  "\<exists>\<sigma>. run four_sleepers boot_system = Some \<sigma> \<and> sleep_list (kernel \<sigma>) = [2, 4, 1, 3] \<and>
     asleep (trace (kernel \<sigma>)) = [1, 2, 3, 4] \<and>
     map (wake_tick (kernel \<sigma>)) [2, 4, 1, 3] = [3, 3, 5, 5] \<and>
     sorted_wrt (\<lambda>a b. wake_tick (kernel \<sigma>) a \<le>s wake_tick (kernel \<sigma>) b)
       (sleep_list (kernel \<sigma>)) \<and>
     filter (\<lambda>t. wake_tick (kernel \<sigma>) t = 3) (sleep_list (kernel \<sigma>)) =
       filter (\<lambda>t. wake_tick (kernel \<sigma>) t = 3) (asleep (trace (kernel \<sigma>)))"
proof -
  from four_sleepers_run obtain \<sigma> where
    r: "run four_sleepers boot_system = Some \<sigma>" and
    l: "sleep_list (kernel \<sigma>) = [2, 4, 1, 3]" "asleep (trace (kernel \<sigma>)) = [1, 2, 3, 4]"
      "map (wake_tick (kernel \<sigma>)) [2, 4, 1, 3] = [3, 3, 5, 5]"
    by auto
  note t = sleep_list_sorted_stable [OF r]
  from t have s: "sorted_wrt (\<lambda>a b. wake_tick (kernel \<sigma>) a \<le>s wake_tick (kernel \<sigma>) b)
       (sleep_list (kernel \<sigma>))"
    by (rule conjunct1)
  from t have "\<forall>w. filter (\<lambda>t. wake_tick (kernel \<sigma>) t = w) (sleep_list (kernel \<sigma>)) =
       filter (\<lambda>t. wake_tick (kernel \<sigma>) t = w) (asleep (trace (kernel \<sigma>)))"
    by (elim conjE)
  then have f: "filter (\<lambda>t. wake_tick (kernel \<sigma>) t = 3) (sleep_list (kernel \<sigma>)) =
       filter (\<lambda>t. wake_tick (kernel \<sigma>) t = 3) (asleep (trace (kernel \<sigma>)))"
    by (rule spec)
  from r l s f show ?thesis
    by (iprover intro: conjI exI)
qed

section \<open>The tick counter over a run\<close>

lemma step_ticks:
  "step a \<sigma> = Some \<sigma>' \<Longrightarrow>
     ticks (kernel \<sigma>') = ticks (kernel \<sigma>) + of_nat (count_list [a] Timer_tick)"
  by (cases a)
     (auto simp: timer_interrupt_ticks timer_sleep_block_ticks
       split: if_splits sum.splits option.splits)

lemma run_ticks:
  "run acts \<sigma> = Some \<sigma>' \<Longrightarrow>
     ticks (kernel \<sigma>') = ticks (kernel \<sigma>) + of_nat (count_list acts Timer_tick)"
proof (induction acts arbitrary: \<sigma>)
  case Nil
  then show ?case by simp
next
  case (Cons a acts)
  from Cons.prems obtain \<sigma>1 where s: "step a \<sigma> = Some \<sigma>1" and r: "run acts \<sigma>1 = Some \<sigma>'"
    by (auto split: option.splits)
  from step_ticks [OF s] Cons.IH [OF r] show ?case
    by simp
qed

lemma run_append:
  "run (xs @ ys) \<sigma> = (case run xs \<sigma> of None \<Rightarrow> None | Some \<sigma>' \<Rightarrow> run ys \<sigma>')"
  by (induction xs arbitrary: \<sigma>) (auto split: option.splits)

lemma sint_of_nat64: "n < 2 ^ 63 \<Longrightarrow> sint (of_nat n :: int64) = int n"
proof -
  assume "n < 2 ^ 63"
  then have "int n < 2 ^ 63"
    by (metis of_nat_less_iff of_nat_numeral of_nat_power)
  then have "sint (word_of_int (int n) :: int64) = int n"
    by (intro sint_of_int64) simp_all
  then show ?thesis by simp
qed

lemma step_after_ticks: "step Timer_tick (after_ticks m) = Some (after_ticks (Suc m))"
  by (simp add: after_ticks_def boot_system_def boot_def timer_init_def timer_interrupt_def
      thread_tick_def Let_def wake_due.simps)

lemma run_after_ticks:
  "run (replicate n Timer_tick) (after_ticks m) = Some (after_ticks (m + n))"
  by (induction n arbitrary: m) (simp_all add: step_after_ticks del: step.simps)

lemma count_list_replicate_same: "count_list (replicate n x) x = n"
  by (induction n) simp_all

lemma after_ticks_0: "after_ticks 0 = boot_system"
  by (simp add: after_ticks_def boot_system_def boot_def timer_init_def)

lemma sint_add_uint:
  fixes a w :: int64
  shows "sint (a + w) =
    (if sint a + uint w < 2 ^ 63 then sint a + uint w else sint a + uint w - 2 ^ 64)"
proof -
  have lo: "- (2 ^ 63) \<le> sint a" and hi: "sint a < 2 ^ 63"
    using sint_ge [of a] sint_lt [of a] by simp_all
  have u1: "uint w < 2 ^ 64"
    using uint_lt2p [of w] by simp
  have e: "sint (a + w) = sint (word_of_int (sint a + uint w) :: int64)"
    by simp
  show ?thesis
  proof (cases "sint a + uint w < 2 ^ 63")
    case True
    have "sint a \<le> sint a + uint w"
      by simp
    with lo have "- (2 ^ 63) \<le> sint a + uint w"
      by (rule order_trans)
    then have "sint (word_of_int (sint a + uint w) :: int64) = sint a + uint w"
      using True by (rule sint_of_int64)
    with True show ?thesis
      by (simp only: e if_True)
  next
    case False
    have "(word_of_int (sint a + uint w - 2 ^ 64) :: int64) = word_of_int (sint a + uint w)"
      by (simp add: word_of_int_minus)
    then have "sint (word_of_int (sint a + uint w) :: int64) =
        sint (word_of_int (sint a + uint w - 2 ^ 64) :: int64)"
      by (rule arg_cong [symmetric, of _ _ sint])
    also have "\<dots> = sint a + uint w - 2 ^ 64"
      using False hi u1 by (intro sint_of_int64) simp_all
    finally show ?thesis
      using False by (simp only: e if_False)
  qed
qed

lemma uint_of_nat64: "uint (of_nat k :: int64) = int (k mod 2 ^ 64)"
  by (simp add: uint_nat unat_of_nat)

text \<open>
  Claim C8, as the code has it. The tick counter is an \<^verbatim>\<open>int64_t\<close> that only the handler
  writes, by adding 1. Of two successive reads of \<^verbatim>\<open>timer_ticks\<close>, in every interleaving of
  thread steps and interrupts, the later is not less than the earlier when the counter
  does not pass \<open>2^63 - 1\<close> between them (exactly when it does not, counting the interrupts
  in between modulo \<open>2^64\<close>). \<^verbatim>\<open>timer_elapsed\<close> of the earlier value is the number of
  interrupts in between when these are fewer than \<open>2^63\<close>, hence not negative, also across
  the wrap of the counter.
\<close>

theorem ticks_monotonic:
  assumes "run acts \<sigma> = Some \<sigma>'"
  shows
    "(sint (timer_ticks (kernel \<sigma>)) + int (count_list acts Timer_tick) < 2 ^ 63 \<longrightarrow>
        timer_ticks (kernel \<sigma>) \<le>s timer_ticks (kernel \<sigma>')) \<and>
     (count_list acts Timer_tick < 2 ^ 63 \<longrightarrow>
        0 \<le>s timer_elapsed (timer_ticks (kernel \<sigma>)) (kernel \<sigma>') \<and>
        sint (timer_elapsed (timer_ticks (kernel \<sigma>)) (kernel \<sigma>')) =
          int (count_list acts Timer_tick)) \<and>
     (timer_ticks (kernel \<sigma>) \<le>s timer_ticks (kernel \<sigma>') \<longleftrightarrow>
        sint (timer_ticks (kernel \<sigma>)) + int (count_list acts Timer_tick mod 2 ^ 64) < 2 ^ 63) \<and>
     (0 \<le>s timer_elapsed (timer_ticks (kernel \<sigma>)) (kernel \<sigma>') \<longleftrightarrow>
        int (count_list acts Timer_tick mod 2 ^ 64) < 2 ^ 63)"
proof -
  let ?a = "ticks (kernel \<sigma>)" and ?k = "count_list acts Timer_tick"
  let ?w = "of_nat ?k :: int64"
  let ?U = "int (?k mod 2 ^ 64)"
  have lo: "- (2 ^ 63) \<le> sint ?a"
    using sint_ge [of ?a] by simp
  have b: "timer_ticks (kernel \<sigma>') = timer_ticks (kernel \<sigma>) + ?w"
    unfolding timer_ticks_def by (rule run_ticks [OF assms])
  have e: "timer_elapsed (timer_ticks (kernel \<sigma>)) (kernel \<sigma>') = ?w"
    by (simp add: timer_elapsed_def b)
  have u: "uint ?w = ?U"
    by (rule uint_of_nat64)
  have m0: "0 \<le> ?U"
    by simp
  have "?U < int (2 ^ 64)"
    by (simp only: of_nat_less_iff) simp
  then have m1: "?U < 2 ^ 64"
    by simp
  have sa: "sint (?a + ?w) = (if sint ?a + ?U < 2 ^ 63 then sint ?a + ?U else sint ?a + ?U - 2 ^ 64)"
    unfolding sint_add_uint u ..
  have sw: "sint ?w = (if ?U < 2 ^ 63 then ?U else ?U - 2 ^ 64)"
    using sint_add_uint [of 0 ?w] unfolding u by simp
  have le: "?a \<le>s ?a + ?w \<longleftrightarrow> sint ?a + ?U < 2 ^ 63"
  proof (cases "sint ?a + ?U < 2 ^ 63")
    case True
    with sa m0 show ?thesis
      unfolding word_sle_eq by simp
  next
    case False
    with sa have "sint (?a + ?w) = sint ?a + ?U - 2 ^ 64"
      by simp
    with m1 have "\<not> sint ?a \<le> sint (?a + ?w)"
      by linarith
    with False show ?thesis
      unfolding word_sle_eq by simp
  qed
  have el: "0 \<le>s ?w \<longleftrightarrow> ?U < 2 ^ 63"
  proof (cases "?U < 2 ^ 63")
    case True
    with sw m0 show ?thesis
      unfolding word_sle_eq by simp
  next
    case False
    with sw have "sint ?w = ?U - 2 ^ 64"
      by simp
    with m1 have "\<not> 0 \<le> sint ?w"
      by linarith
    with False show ?thesis
      unfolding word_sle_eq by simp
  qed
  have small: "?U = int ?k" if "int ?k < 2 ^ 64"
  proof -
    from that have "int ?k < int (2 ^ 64)" by simp
    then have "?k < 2 ^ 64" by (simp only: of_nat_less_iff)
    then show ?thesis by simp
  qed
  have 1: "sint ?a + int ?k < 2 ^ 63 \<longrightarrow> ?a \<le>s ?a + ?w"
  proof
    assume h: "sint ?a + int ?k < 2 ^ 63"
    with lo have "int ?k < 2 ^ 64" by simp
    from small [OF this] h le show "?a \<le>s ?a + ?w" by simp
  qed
  have 2: "?k < 2 ^ 63 \<longrightarrow> 0 \<le>s ?w \<and> sint ?w = int ?k"
  proof
    assume "?k < 2 ^ 63"
    then have "int ?k < int (2 ^ 63)" by (simp only: of_nat_less_iff)
    then have h: "int ?k < 2 ^ 63" by simp
    then have "int ?k < 2 ^ 64" by simp
    note s = small [OF this]
    from h s el have "0 \<le>s ?w" by simp
    moreover from h s sw have "sint ?w = int ?k" by simp
    ultimately show "0 \<le>s ?w \<and> sint ?w = int ?k" ..
  qed
  show ?thesis
    unfolding e b unfolding timer_ticks_def
    using 1 2 le el by (intro conjI) assumption+
qed

theorem ticks_monotonic_witness:
  "run (replicate 4 Timer_tick) (after_ticks 3) = Some (after_ticks 7) \<and>
   sint (timer_ticks (kernel (after_ticks 3))) +
     int (count_list (replicate 4 Timer_tick) Timer_tick) < 2 ^ 63 \<and>
   timer_ticks (kernel (after_ticks 3)) \<le>s timer_ticks (kernel (after_ticks 7)) \<and>
   sint (timer_elapsed (timer_ticks (kernel (after_ticks 3))) (kernel (after_ticks 7))) = 4 \<and>
   run [Timer_tick] (after_ticks (2 ^ 63 - 1)) = Some (after_ticks (2 ^ 63)) \<and>
   0 \<le>s timer_elapsed (timer_ticks (kernel (after_ticks (2 ^ 63 - 1))))
     (kernel (after_ticks (2 ^ 63))) \<and>
   sint (timer_elapsed (timer_ticks (kernel (after_ticks (2 ^ 63 - 1))))
     (kernel (after_ticks (2 ^ 63)))) = 1"
proof -
  have r1: "run (replicate 4 Timer_tick) (after_ticks 3) = Some (after_ticks 7)"
    using run_after_ticks [of 4 3] by simp
  have "step Timer_tick (after_ticks (2 ^ 63 - 1)) = Some (after_ticks (2 ^ 63))"
    using step_after_ticks [of "2 ^ 63 - 1"] by (simp del: step.simps)
  then have r2: "run [Timer_tick] (after_ticks (2 ^ 63 - 1)) = Some (after_ticks (2 ^ 63))"
    by (simp del: step.simps)
  have c: "sint (timer_ticks (kernel (after_ticks 3))) +
      int (count_list (replicate 4 Timer_tick) Timer_tick) < 2 ^ 63"
    by (simp add: count_list_replicate_same after_ticks_def timer_ticks_def)
  from ticks_monotonic [OF r1] ticks_monotonic [OF r2] r1 r2 c show ?thesis
    by (simp add: count_list_replicate_same)
qed

text \<open>
  Claim C8 as stated, for every run, fails where the counter wraps: the interrupt that
  follows tick \<open>2^63 - 1\<close> takes the counter to \<open>- 2^63\<close>, and \<^verbatim>\<open>timer_elapsed (0)\<close> is
  negative then.
\<close>

theorem ticks_wrap_counterexample:
  "run (replicate (2 ^ 63 - 1) Timer_tick) boot_system = Some (after_ticks (2 ^ 63 - 1)) \<and>
   run [Timer_tick] (after_ticks (2 ^ 63 - 1)) = Some (after_ticks (2 ^ 63)) \<and>
   \<not> timer_ticks (kernel (after_ticks (2 ^ 63 - 1))) \<le>s timer_ticks (kernel (after_ticks (2 ^ 63))) \<and>
   timer_elapsed (timer_ticks (kernel boot_system)) (kernel (after_ticks (2 ^ 63))) <s 0"
proof -
  have r1: "run (replicate (2 ^ 63 - 1) Timer_tick) boot_system = Some (after_ticks (2 ^ 63 - 1))"
    using run_after_ticks [of "2 ^ 63 - 1" 0] by (simp add: after_ticks_0)
  have "step Timer_tick (after_ticks (2 ^ 63 - 1)) = Some (after_ticks (2 ^ 63))"
    using step_after_ticks [of "2 ^ 63 - 1"] by (simp del: step.simps)
  then have r2: "run [Timer_tick] (after_ticks (2 ^ 63 - 1)) = Some (after_ticks (2 ^ 63))"
    by (simp del: step.simps)
  have t1: "timer_ticks (kernel (after_ticks (2 ^ 63 - 1))) = (9223372036854775807 :: int64)"
    by (simp add: after_ticks_def timer_ticks_def)
  have t2: "timer_ticks (kernel (after_ticks (2 ^ 63))) = (9223372036854775808 :: int64)"
    by (simp add: after_ticks_def timer_ticks_def)
  have t0: "timer_ticks (kernel boot_system) = 0"
    by (simp add: boot_system_def boot_def timer_init_def timer_ticks_def)
  have e: "timer_elapsed 0 (kernel (after_ticks (2 ^ 63))) = (9223372036854775808 :: int64)"
    using t2 by (simp add: timer_elapsed_def)
  show ?thesis
    unfolding t1 t2 t0 e using r1 r2 by (simp add: word_sle_eq word_sless_alt)
qed

section \<open>A sleeping thread is not woken early\<close>

lemma step_trace:
  "step a \<sigma> = Some \<sigma>' \<Longrightarrow>
     trace (kernel \<sigma>') =
       trace (kernel \<sigma>) @ drop (length (trace (kernel \<sigma>))) (trace (kernel \<sigma>'))"
  by (cases a)
     (auto simp: timer_interrupt_trace timer_sleep_block_fields
       split: if_splits sum.splits option.splits)

lemma run_trace:
  "run acts \<sigma> = Some \<sigma>' \<Longrightarrow>
     trace (kernel \<sigma>') =
       trace (kernel \<sigma>) @ drop (length (trace (kernel \<sigma>))) (trace (kernel \<sigma>'))"
proof (induction acts arbitrary: \<sigma>)
  case Nil
  then show ?case by simp
next
  case (Cons a acts)
  from Cons.prems obtain \<sigma>1 where s: "step a \<sigma> = Some \<sigma>1" and r: "run acts \<sigma>1 = Some \<sigma>'"
    by (auto split: option.splits)
  from step_trace [OF s] Cons.IH [OF r] show ?case
    by (metis append_eq_conv_conj append.assoc)
qed

lemma unblock_due:
  "Thread_unblock t \<in> set (drop (length (trace s)) (trace (timer_interrupt s))) \<Longrightarrow>
     t \<in> set (sleep_list s) \<and> wake_tick s t \<le>s ticks (timer_interrupt s)"
  by (auto simp: timer_interrupt_trace timer_interrupt_ticks dest: set_takeWhileD)

lemma waiting_step:
  assumes inv: "sleep_inv \<sigma>" and w: "waiting c w \<sigma>" and s: "step a \<sigma> = Some \<sigma>'"
  shows "(waiting c w \<sigma>' \<and>
          Thread_unblock c \<notin> set (drop (length (trace (kernel \<sigma>))) (trace (kernel \<sigma>')))) \<or>
         (a = Timer_tick \<and> w \<le>s ticks (kernel \<sigma>) + 1)"
proof -
  let ?k = "kernel \<sigma>"
  from inv have blk:
    "\<forall>t \<in> set (sleep_list ?k). status ?k t = Blocked \<and> wake_local \<sigma> t = None"
    and srt: "sorted_wrt (\<lambda>a b. wake_tick ?k a \<le>s wake_tick ?k b) (sleep_list ?k)"
    by (simp_all add: sleep_inv_def)
  show ?thesis
  proof (cases a)
    case Timer_tick
    let ?due = "\<lambda>t. wake_tick ?k t \<le>s ticks ?k + 1"
    from s Timer_tick have k': "kernel \<sigma>' = timer_interrupt ?k"
      and l': "wake_local \<sigma>' = wake_local \<sigma>"
      by auto
    show ?thesis
    proof (cases "c \<in> set (takeWhile ?due (sleep_list ?k))")
      case True
      then have "c \<in> set (sleep_list ?k)" "wake_tick ?k c \<le>s ticks ?k + 1"
        by (auto dest: set_takeWhileD)
      with w blk have "w \<le>s ticks ?k + 1"
        by (auto simp: waiting_def)
      with Timer_tick show ?thesis by simp
    next
      case False
      then have nu: "Thread_unblock c \<notin> set (drop (length (trace ?k)) (trace (kernel \<sigma>')))"
        by (auto simp: k' timer_interrupt_trace)
      have "c \<in> set (sleep_list ?k) \<Longrightarrow> c \<in> set (dropWhile ?due (sleep_list ?k))"
        using False by (metis UnE set_append takeWhile_dropWhile_id)
      then have "waiting c w \<sigma>'"
        using w by (auto simp: waiting_def k' l' timer_interrupt_sleep_list timer_interrupt_keeps)
      with nu show ?thesis by simp
    qed
  next
    case (Call_sleep c' lvl n)
    with s have k': "kernel \<sigma>' = ?k"
      by (auto split: if_splits sum.splits option.splits)
    from s Call_sleep have "wake_local \<sigma>' c = wake_local \<sigma> c \<or>
        (c' = c \<and> wake_local \<sigma> c = None \<and> status ?k c \<noteq> Blocked)"
      by (auto split: if_splits sum.splits option.splits)
    with w blk have "waiting c w \<sigma>'"
      by (auto simp: waiting_def k')
    then show ?thesis by (simp add: k')
  next
    case (Enter_block c')
    with s obtain w' where loc: "wake_local \<sigma> c' = Some w'"
      and \<sigma>': "\<sigma>' = \<lparr>kernel = timer_sleep_block c' w' ?k, wake_local = (wake_local \<sigma>)(c' := None)\<rparr>"
      by (auto split: option.splits)
    from blk loc have notin: "c' \<notin> set (sleep_list ?k)"
      by auto
    note f = timer_sleep_block_fields [of c' w' ?k]
    note l = timer_sleep_block_list [OF srt notin, of w']
    have nu: "Thread_unblock c \<notin> set (drop (length (trace ?k)) (trace (kernel \<sigma>')))"
      by (simp add: \<sigma>' f)
    have "waiting c w \<sigma>'"
    proof (cases "c' = c")
      case True
      with w loc notin have "w' = w"
        by (auto simp: waiting_def)
      moreover have "c' \<in> set (sleep_list (timer_sleep_block c' w' ?k))"
        unfolding l by simp
      moreover have "wake_tick (timer_sleep_block c' w' ?k) c' = w'"
        by (simp add: f)
      ultimately show ?thesis
        using True by (simp add: waiting_def \<sigma>')
    next
      case False
      have "c \<in> set (sleep_list ?k) \<Longrightarrow> c \<in> set (sleep_list (timer_sleep_block c' w' ?k))"
        unfolding l by (auto simp: word_sle_eq word_sless_alt)
      with w False show ?thesis
        by (auto simp: waiting_def \<sigma>' f)
    qed
    with nu show ?thesis by simp
  qed
qed

lemma waiting_run:
  assumes "sleep_inv \<sigma>" and "waiting c w \<sigma>" and "run acts \<sigma> = Some \<sigma>'"
    and "Thread_unblock c \<in> set (drop (length (trace (kernel \<sigma>))) (trace (kernel \<sigma>')))"
  shows "\<exists>m < count_list acts Timer_tick. w \<le>s ticks (kernel \<sigma>) + of_nat (Suc m)"
  using assms
proof (induction acts arbitrary: \<sigma>)
  case Nil
  then show ?case by simp
next
  case (Cons a acts)
  from Cons.prems(3) obtain \<sigma>1 where s: "step a \<sigma> = Some \<sigma>1" and r: "run acts \<sigma>1 = Some \<sigma>'"
    by (auto split: option.splits)
  note inv1 = sleep_inv_step [OF Cons.prems(1) s]
  from waiting_step [OF Cons.prems(1,2) s]
  show ?case
  proof
    assume h: "waiting c w \<sigma>1 \<and>
      Thread_unblock c \<notin> set (drop (length (trace (kernel \<sigma>))) (trace (kernel \<sigma>1)))"
    let ?e1 = "drop (length (trace (kernel \<sigma>))) (trace (kernel \<sigma>1))"
    let ?e2 = "drop (length (trace (kernel \<sigma>1))) (trace (kernel \<sigma>'))"
    have t1: "trace (kernel \<sigma>1) = trace (kernel \<sigma>) @ ?e1"
      by (rule step_trace [OF s])
    have t2: "trace (kernel \<sigma>') = trace (kernel \<sigma>1) @ ?e2"
      by (rule run_trace [OF r])
    have "trace (kernel \<sigma>') = trace (kernel \<sigma>) @ ?e1 @ ?e2"
      using t1 t2 by (metis append.assoc)
    then have "drop (length (trace (kernel \<sigma>))) (trace (kernel \<sigma>')) = ?e1 @ ?e2"
      by (metis append_eq_conv_conj)
    with Cons.prems(4) h have "Thread_unblock c \<in> set ?e2"
      by auto
    from Cons.IH [OF inv1 _ r this] h obtain m where
      m: "m < count_list acts Timer_tick" "w \<le>s ticks (kernel \<sigma>1) + of_nat (Suc m)"
      by blast
    show ?thesis
    proof (cases "a = Timer_tick")
      case True
      with step_ticks [OF s] m have "w \<le>s ticks (kernel \<sigma>) + of_nat (Suc (Suc m))"
        by (simp add: add.assoc)
      moreover from True m have "Suc m < count_list (a # acts) Timer_tick"
        by simp
      ultimately show ?thesis by blast
    next
      case False
      with step_ticks [OF s] m have "w \<le>s ticks (kernel \<sigma>) + of_nat (Suc m)"
        by simp
      moreover from False m have "m < count_list (a # acts) Timer_tick"
        by simp
      ultimately show ?thesis by blast
    qed
  next
    assume "a = Timer_tick \<and> w \<le>s ticks (kernel \<sigma>) + 1"
    then have "0 < count_list (a # acts) Timer_tick" "w \<le>s ticks (kernel \<sigma>) + of_nat (Suc 0)"
      by simp_all
    then show ?thesis by blast
  qed
qed

lemma sint_add64:
  fixes a b :: int64
  shows "- (2 ^ 63) \<le> sint a + sint b \<Longrightarrow> sint a + sint b < 2 ^ 63 \<Longrightarrow>
    sint (a + b) = sint a + sint b"
  by (simp add: sint_word_ariths signed_take_bit_int_eq_self)

lemma deadline_reached:
  fixes t0 n :: int64
  assumes pos: "0 < sint n" and fit: "sint t0 + sint n < 2 ^ 63"
    and le: "t0 + n \<le>s t0 + of_nat k"
  shows "sint n \<le> int k"
proof (rule ccontr)
  assume "\<not> sint n \<le> int k"
  then have lt: "int k < sint n" by simp
  have lo: "- (2 ^ 63) \<le> sint t0"
    using sint_ge [of t0] by simp
  have nlt: "sint n < 2 ^ 63"
    using sint_lt [of n] by simp
  from lt nlt have "int k < 2 ^ 63" by simp
  then have "k < 2 ^ 63"
    by (metis of_nat_less_iff of_nat_numeral of_nat_power)
  then have sk: "sint (of_nat k :: int64) = int k"
    by (rule sint_of_nat64)
  have 1: "sint (t0 + n) = sint t0 + sint n"
    using pos fit lo by (intro sint_add64) simp_all
  have "sint (t0 + of_nat k) = sint t0 + sint (of_nat k :: int64)"
    using lt fit lo by (intro sint_add64) (simp_all add: sk)
  then have 2: "sint (t0 + of_nat k) = sint t0 + int k"
    by (simp only: sk)
  from le have "sint t0 + sint n \<le> sint t0 + int k"
    by (simp add: word_sle_eq 1 2)
  with lt show False by simp
qed

text \<open>
  Claim C1, as the code has it. A thread calls \<^verbatim>\<open>timer_sleep (n)\<close> with \<open>n > 0\<close> in a state
  reached from boot, where the tick counter reads \<open>t0\<close>, and \<open>t0 + n\<close> does not exceed
  \<open>2^63 - 1\<close>. Its deadline is \<^verbatim>\<open>timer_ticks () + n\<close>. Whatever the threads and the timer do
  afterwards, if the handler unblocks the thread then at least \<open>n\<close> timer interrupts have
  occurred since the call, and the counter has reached \<open>t0 + n\<close> (if it has not wrapped
  meanwhile). The handler never unblocks a thread whose \<^verbatim>\<open>wake_tick\<close> is greater than the
  tick count it has just incremented.
\<close>

theorem sleep_lower_bound:
  assumes reach: "run pre boot_system = Some \<sigma>0"
    and pos: "0 <s n"
    and call: "step (Call_sleep c lvl n) \<sigma>0 = Some \<sigma>1"
    and fit: "sint (timer_ticks (kernel \<sigma>0)) + sint n < 2 ^ 63"
    and later: "run acts \<sigma>1 = Some \<sigma>2"
    and woken: "Thread_unblock c \<in>
       set (drop (length (trace (kernel \<sigma>1))) (trace (kernel \<sigma>2)))"
  shows "wake_local \<sigma>1 c = Some (timer_ticks (kernel \<sigma>0) + n) \<and>
         sint n \<le> int (count_list acts Timer_tick) \<and>
         (sint (timer_ticks (kernel \<sigma>0)) + int (count_list acts Timer_tick) < 2 ^ 63 \<longrightarrow>
            sint (timer_ticks (kernel \<sigma>0)) + sint n \<le> sint (timer_ticks (kernel \<sigma>2))) \<and>
         (\<forall>s t. Thread_unblock t \<in> set (drop (length (trace s)) (trace (timer_interrupt s))) \<longrightarrow>
            wake_tick s t \<le>s ticks (timer_interrupt s))"
proof -
  let ?t0 = "ticks (kernel \<sigma>0)"
  let ?N = "count_list acts Timer_tick"
  have inv0: "sleep_inv \<sigma>0"
    by (rule sleep_inv_run [OF sleep_inv_boot reach])
  have inv1: "sleep_inv \<sigma>1"
    by (rule sleep_inv_step [OF inv0 call])
  from pos have np: "\<not> n \<le>s 0" and sp: "0 < sint n"
    by (simp_all add: word_sle_eq word_sless_alt)
  from call np have loc: "wake_local \<sigma>1 c = Some (?t0 + n)" and k1: "kernel \<sigma>1 = kernel \<sigma>0"
    by (auto simp: timer_sleep_wake_def timer_ticks_def split: if_splits)
  then have wt: "waiting c (?t0 + n) \<sigma>1"
    by (simp add: waiting_def)
  from waiting_run [OF inv1 wt later woken] obtain m where
    m: "m < ?N" "?t0 + n \<le>s ?t0 + of_nat (Suc m)"
    by (auto simp: k1)
  from fit have fit': "sint ?t0 + sint n < 2 ^ 63"
    by (simp add: timer_ticks_def)
  from deadline_reached [OF sp fit' m(2)] m(1) have bound: "sint n \<le> int ?N"
    by simp
  have reached: "sint ?t0 + sint n \<le> sint (ticks (kernel \<sigma>2))"
    if room: "sint ?t0 + int ?N < 2 ^ 63"
  proof -
    have lo: "- (2 ^ 63) \<le> sint ?t0"
      using sint_ge [of ?t0] by simp
    have "ticks (kernel \<sigma>2) = ?t0 + of_nat ?N"
      using run_ticks [OF later] by (simp add: k1)
    also have "\<dots> = word_of_int (sint ?t0 + int ?N)"
      by simp
    finally have "sint (ticks (kernel \<sigma>2)) = sint (word_of_int (sint ?t0 + int ?N) :: int64)"
      by simp
    also have "\<dots> = sint ?t0 + int ?N"
      using room lo by (intro sint_of_int64) simp_all
    finally show ?thesis
      using bound by simp
  qed
  have only: "\<forall>s t.
      Thread_unblock t \<in> set (drop (length (trace s)) (trace (timer_interrupt s))) \<longrightarrow>
      wake_tick s t \<le>s ticks (timer_interrupt s)"
    by (blast dest: unblock_due)
  from loc bound reached only show ?thesis
    by (simp add: timer_ticks_def)
qed

lemma short_sleep_run:
  "\<exists>\<sigma>0 \<sigma>1 \<sigma>2. run [Timer_tick] boot_system = Some \<sigma>0 \<and>
     step (Call_sleep 1 INTR_ON 2) \<sigma>0 = Some \<sigma>1 \<and> run short_sleep \<sigma>1 = Some \<sigma>2 \<and>
     sint (timer_ticks (kernel \<sigma>0)) + sint (2 :: int64) < 2 ^ 63 \<and>
     drop (length (trace (kernel \<sigma>1))) (trace (kernel \<sigma>2)) =
       [Thread_block 1, Thread_tick 2, Thread_tick 3, Thread_unblock 1]"
  by (simp add: short_sleep_def boot_system_def boot_def timer_init_def timer_sleep_wake_def
      timer_sleep_block_def thread_block_def timer_ticks_def wake_less_def Let_def
      timer_interrupt_def thread_tick_def thread_unblock_def wake_due.simps
      word_sle_eq word_sless_alt)

theorem sleep_lower_bound_witness:
  "\<exists>\<sigma>0 \<sigma>1 \<sigma>2. run [Timer_tick] boot_system = Some \<sigma>0 \<and>
     step (Call_sleep 1 INTR_ON 2) \<sigma>0 = Some \<sigma>1 \<and> run short_sleep \<sigma>1 = Some \<sigma>2 \<and>
     drop (length (trace (kernel \<sigma>1))) (trace (kernel \<sigma>2)) =
       [Thread_block 1, Thread_tick 2, Thread_tick 3, Thread_unblock 1] \<and>
     wake_local \<sigma>1 1 = Some (timer_ticks (kernel \<sigma>0) + 2) \<and>
     sint (2 :: int64) \<le> int (count_list short_sleep Timer_tick)"
proof -
  from short_sleep_run obtain \<sigma>0 \<sigma>1 \<sigma>2 where
    r: "run [Timer_tick] boot_system = Some \<sigma>0"
    and c: "step (Call_sleep 1 INTR_ON 2) \<sigma>0 = Some \<sigma>1"
    and l: "run short_sleep \<sigma>1 = Some \<sigma>2"
    and f: "sint (timer_ticks (kernel \<sigma>0)) + sint (2 :: int64) < 2 ^ 63"
    and t: "drop (length (trace (kernel \<sigma>1))) (trace (kernel \<sigma>2)) =
       [Thread_block 1, Thread_tick 2, Thread_tick 3, Thread_unblock 1]"
    by auto
  have p: "(0 :: int64) <s 2"
    by (simp add: word_sless_alt)
  have u: "Thread_unblock 1 \<in> set (drop (length (trace (kernel \<sigma>1))) (trace (kernel \<sigma>2)))"
    unfolding t by simp
  note b = sleep_lower_bound [OF r p c f l u]
  from b have b1: "wake_local \<sigma>1 1 = Some (timer_ticks (kernel \<sigma>0) + 2)"
    by (rule conjunct1)
  from b have b2: "sint (2 :: int64) \<le> int (count_list short_sleep Timer_tick)"
    by (elim conjE)
  from r c l t b1 b2 show ?thesis
    by (iprover intro: conjI exI)
qed

text \<open>
  Claim C1 as stated, for every positive \<open>n\<close>, fails where \<^verbatim>\<open>timer_ticks () + n\<close>
  overflows: a thread that calls \<^verbatim>\<open>timer_sleep (2^63 - 1)\<close> at tick 1 gets a negative
  deadline and is unblocked by the next interrupt, one tick after the call.
\<close>

theorem sleep_overflow_counterexample:
  "map_option (trace \<circ> kernel)
     (run [Timer_tick, Call_sleep 1 INTR_ON (2 ^ 63 - 1), Enter_block 1, Timer_tick] boot_system) =
     Some [Thread_tick 1, Thread_block 1, Thread_tick 2, Thread_unblock 1] \<and>
   (0 :: int64) <s 2 ^ 63 - 1 \<and>
   \<not> sint (2 ^ 63 - 1 :: int64) \<le> int (count_list [Enter_block 1, Timer_tick] Timer_tick)"
  by (simp add: boot_system_def boot_def timer_init_def timer_sleep_wake_def
      timer_sleep_block_def thread_block_def timer_ticks_def wake_less_def Let_def
      timer_interrupt_def thread_tick_def thread_unblock_def wake_due.simps
      word_sle_eq word_sless_alt)

section \<open>What calibration computes\<close>

lemma bit_pow2: "bit ((2 :: uint32) ^ e) b \<longleftrightarrow> b = e \<and> e < 32"
  by (auto simp: bit_simps)

lemma pow2_nonzero: "(2 :: uint32) ^ e \<noteq> 0 \<longleftrightarrow> e < 32"
  by (simp add: not_le)

lemma pow2_inj:
  assumes "a < 32"
  shows "(2 :: uint32) ^ a = 2 ^ b \<longleftrightarrow> a = b"
proof
  assume "(2 :: uint32) ^ a = 2 ^ b"
  moreover have "bit ((2 :: uint32) ^ a) a"
    using assms by (simp only: bit_pow2)
  ultimately have "bit ((2 :: uint32) ^ b) a" by simp
  then show "a = b" by (simp only: bit_pow2)
qed simp

lemma drop_pow2:
  assumes "m \<le> e" "e < 32"
  shows "drop_bit m ((2 :: uint32) ^ e) = 2 ^ (e - m)"
proof (rule bit_eqI)
  fix n
  have "bit (drop_bit m ((2 :: uint32) ^ e)) n \<longleftrightarrow> bit ((2 :: uint32) ^ e) (m + n)"
    by (simp add: bit_drop_bit_eq)
  also have "\<dots> \<longleftrightarrow> bit ((2 :: uint32) ^ (e - m)) n"
    using assms unfolding bit_pow2 by auto
  finally show "bit (drop_bit m ((2 :: uint32) ^ e)) n = bit ((2 :: uint32) ^ (e - m)) n" .
qed

lemma double_pow2: "push_bit 1 ((2 :: uint32) ^ j) = 2 ^ Suc j"
  by (simp add: push_bit_eq_mult)

lemma too_many_loops_log:
  "too_many_loops loops obs s = Some (many, obs', s') \<Longrightarrow>
     measured s' = measured s @ [(loops, many)] \<and> loops_per_tick s' = loops_per_tick s"
  by (auto simp: too_many_loops_def Let_def split: list.splits option.splits)

lemma calibrate_double_result:
  assumes "calibrate_double obs s = Some (Inr (obs', s'))"
    and "loops_per_tick s = 2 ^ j" and "j < 32"
  shows "\<exists>k. j \<le> k \<and> k < 32 \<and> loops_per_tick s' = 2 ^ k \<and>
           measured s' =
             measured s @ map (\<lambda>i. (2 ^ Suc i, False)) [j..<k] @ [(2 ^ Suc k, True)]"
  using assms
proof (induction obs s arbitrary: j rule: calibrate_double.induct)
  case (1 obs s)
  have q: "push_bit 1 (loops_per_tick s) = 2 ^ Suc j"
    using "1.prems"(2) by (simp only: double_pow2)
  from "1.prems"(1) obtain many obs1 s1 where
    t: "too_many_loops (push_bit 1 (loops_per_tick s)) obs s = Some (many, obs1, s1)"
    by (subst (asm) calibrate_double.simps) (auto split: option.splits)
  note g = too_many_loops_log [OF t]
  show ?case
  proof (cases many)
    case True
    with "1.prems"(1) t have "s' = s1"
      by (subst (asm) calibrate_double.simps) simp
    with g True "1.prems"(2,3) q show ?thesis
      by (intro exI [of _ j]) simp
  next
    case False
    let ?s2 = "s1\<lparr>loops_per_tick := push_bit 1 (loops_per_tick s1)\<rparr>"
    from "1.prems"(1) t False have nz: "loops_per_tick ?s2 \<noteq> 0"
      and r: "calibrate_double obs1 ?s2 = Some (Inr (obs', s'))"
      by (subst (asm) calibrate_double.simps, simp add: Let_def split: if_splits)+
    have l2: "loops_per_tick ?s2 = 2 ^ Suc j"
      using g q by simp
    with nz have j1: "Suc j < 32"
      by (simp only: pow2_nonzero)
    from "1.IH" [OF t refl refl _ refl nz r l2 j1] False obtain k where
      k: "Suc j \<le> k" "k < 32" "loops_per_tick s' = 2 ^ k"
        "measured s' = measured ?s2 @ map (\<lambda>i. (2 ^ Suc i, False)) [Suc j..<k] @ [(2 ^ Suc k, True)]"
      by auto
    from k(1) have u: "[j..<k] = j # [Suc j..<k]"
      by (simp add: upt_conv_Cons)
    have "measured s' =
        measured s @ map (\<lambda>i. (2 ^ Suc i, False)) [j..<k] @ [(2 ^ Suc k, True)]"
      unfolding u using k(4) g q False by simp
    with k show ?thesis
      by (intro exI [of _ k]) simp
  qed
qed

lemma map_upt_shift: "map f [0..<Suc n] = f 0 # map (\<lambda>m. f (Suc m)) [0..<n]"
proof -
  have "[0..<Suc n] = 0 # [Suc 0..<Suc n]"
    by (rule upt_conv_Cons) simp
  also have "\<dots> = 0 # map Suc [0..<n]"
    by (simp only: map_Suc_upt)
  finally have "[0..<Suc n] = 0 # map Suc [0..<n]" .
  then show ?thesis
    by (simp only: list.map map_map comp_def)
qed

lemma calibrate_refine_result:
  assumes "calibrate_refine high test obs s = Some (obs', s')"
    and "high = 2 ^ k" and "test = 2 ^ (k - Suc i)" and "i \<le> 9" and "10 \<le> k" and "k < 32"
  shows "\<exists>as. length as = 9 - i \<and>
           measured s' =
             measured s @
               map (\<lambda>m. (2 ^ k OR 2 ^ (k - Suc (i + m)), as ! m)) [0..<9 - i] \<and>
           (\<forall>b. bit (loops_per_tick s') b \<longleftrightarrow>
              bit (loops_per_tick s) b \<or> (\<exists>m < 9 - i. b = k - Suc (i + m) \<and> \<not> as ! m))"
  using assms
proof (induction high test obs s arbitrary: i rule: calibrate_refine.induct)
  case (1 high test obs s)
  note hk = "1.prems"(2) and tk = "1.prems"(3) and k10 = "1.prems"(5) and k32 = "1.prems"(6)
  have d10: "drop_bit 10 high = 2 ^ (k - 10)"
    unfolding hk using k10 k32 by (rule drop_pow2)
  show ?case
  proof (cases "i = 9")
    case True
    then have "test = drop_bit 10 high"
      using tk d10 by simp
    with "1.prems"(1) have "s' = s"
      by (subst (asm) calibrate_refine.simps) simp
    with True show ?thesis
      by (intro exI [of _ "[]"]) simp
  next
    case False
    with "1.prems"(4) have i9: "i < 9" by simp
    have "k - Suc i < 32" "k - Suc i \<noteq> k - 10"
      using k32 k10 i9 by simp_all
    then have ne: "test \<noteq> drop_bit 10 high"
      unfolding tk d10 by (simp add: pow2_inj)
    from "1.prems"(1) ne obtain many obs1 s1 where
      t: "too_many_loops (high OR test) obs s = Some (many, obs1, s1)"
      by (subst (asm) calibrate_refine.simps) (auto split: option.splits)
    note g = too_many_loops_log [OF t]
    let ?s2 = "if \<not> many then s1\<lparr>loops_per_tick := loops_per_tick s1 OR test\<rparr> else s1"
    from "1.prems"(1) ne t have
      r: "calibrate_refine high (drop_bit 1 test) obs1 ?s2 = Some (obs', s')"
      by (subst (asm) calibrate_refine.simps) simp
    have "drop_bit 1 ((2 :: uint32) ^ (k - Suc i)) = 2 ^ (k - Suc i - 1)"
      using k32 k10 i9 by (intro drop_pow2) simp_all
    then have t2: "drop_bit 1 test = 2 ^ (k - Suc (Suc i))"
      unfolding tk by simp
    from i9 have i': "Suc i \<le> 9" by simp
    from "1.IH" [OF ne t refl refl r hk t2 i' k10 k32] obtain as' where
      len: "length as' = 9 - Suc i"
      and log: "measured s' = measured ?s2 @
          map (\<lambda>m. (2 ^ k OR 2 ^ (k - Suc (Suc i + m)), as' ! m)) [0..<9 - Suc i]"
      and bits: "\<forall>b. bit (loops_per_tick s') b \<longleftrightarrow>
          bit (loops_per_tick ?s2) b \<or> (\<exists>m < 9 - Suc i. b = k - Suc (Suc i + m) \<and> \<not> as' ! m)"
      by blast
    let ?as = "many # as'"
    have n: "9 - i = Suc (9 - Suc i)"
      using i9 by simp
    have 1: "length ?as = 9 - i"
      using len i9 by simp
    have m2: "measured ?s2 = measured s @ [(2 ^ k OR 2 ^ (k - Suc i), many)]"
      using g hk tk by simp
    have "map (\<lambda>m. ((2 :: uint32) ^ k OR 2 ^ (k - Suc (i + m)), ?as ! m)) [0..<Suc (9 - Suc i)] =
          (2 ^ k OR 2 ^ (k - Suc i), many) #
          map (\<lambda>m. (2 ^ k OR 2 ^ (k - Suc (Suc i + m)), as' ! m)) [0..<9 - Suc i]"
      unfolding map_upt_shift by simp
    then have 2: "measured s' =
        measured s @ map (\<lambda>m. (2 ^ k OR 2 ^ (k - Suc (i + m)), ?as ! m)) [0..<9 - i]"
      unfolding n log m2 by (simp del: upt_Suc)
    have b2: "bit (loops_per_tick ?s2) b \<longleftrightarrow>
        bit (loops_per_tick s) b \<or> (b = k - Suc i \<and> \<not> many)" for b
      using g k32 by (auto simp: tk bit_or_iff bit_pow2)
    have 3: "bit (loops_per_tick s') b \<longleftrightarrow>
        bit (loops_per_tick s) b \<or> (\<exists>m < 9 - i. b = k - Suc (i + m) \<and> \<not> ?as ! m)" for b
      unfolding n Ex_less_Suc2 using bits b2 by simp
    from 1 2 3 show ?thesis
      by (intro exI [of _ ?as]) blast
  qed
qed

lemma bit_passed_sum:
  assumes "n \<le> k" and "k < 32"
  shows "bit ((2 :: uint32) ^ k +
              sum_list (map (\<lambda>m. if as ! m then 0 else 2 ^ (k - Suc m)) [0..<n])) b \<longleftrightarrow>
         b = k \<or> (\<exists>m < n. b = k - Suc m \<and> \<not> as ! m)"
  using assms(1)
proof (induction n arbitrary: b)
  case 0
  then show ?case using assms(2) by (simp add: bit_pow2)
next
  case (Suc n)
  let ?T = "(2 :: uint32) ^ k + sum_list (map (\<lambda>m. if as ! m then 0 else 2 ^ (k - Suc m)) [0..<n])"
  from Suc.prems have nk: "n \<le> k" "n < k" by simp_all
  note ih = Suc.IH [OF nk(1)]
  show ?case
  proof (cases "as ! n")
    case True
    then show ?thesis
      using ih [of b] by (auto simp: less_Suc_eq)
  next
    case False
    have clear: "\<not> bit ?T (k - Suc n)"
      using nk by (subst ih) auto
    have "?T + 2 ^ (k - Suc n) = ?T OR 2 ^ (k - Suc n)"
      using clear by (intro disjunctive_add) (auto simp: bit_pow2)
    then have "bit (?T + 2 ^ (k - Suc n)) b \<longleftrightarrow> bit ?T b \<or> b = k - Suc n"
      using assms(2) by (auto simp: bit_or_iff bit_pow2)
    with False show ?thesis
      using ih [of b] by (auto simp: less_Suc_eq add.assoc)
  qed
qed

section \<open>Calibration comes to an end\<close>

text \<open>
  \<^verbatim>\<open>too_many_loops\<close> waits in two loops for the tick counter to change. When the reads show
  the counter advancing four times, one call comes to an end and leaves all but four of
  the advances; the doubling loop makes at most 22 calls from \<open>2^10\<close> and the refining loop
  nine, so 124 advances are enough for lines 73 to 88.
\<close>

lemma changes_Cons_le: "changes (a # obs) \<le> Suc (changes obs)"
  by (cases obs) auto

lemma changes_pos: "0 < changes obs \<Longrightarrow> \<exists>a rest. obs = a # rest \<and> rest \<noteq> []"
  by (cases obs rule: changes.cases) auto

lemma wait_tick_total:
  "0 < changes (start # obs) \<Longrightarrow>
     \<exists>obs2. wait_tick start obs = Some obs2 \<and> changes (start # obs) \<le> changes obs2 + 2"
proof (induction obs)
  case Nil
  then show ?case by simp
next
  case (Cons t obs)
  show ?case
  proof (cases "t = start")
    case True
    with Cons show ?thesis by simp
  next
    case False
    with changes_Cons_le [of t obs] show ?thesis by simp
  qed
qed

lemma too_many_loops_total:
  assumes "4 \<le> changes obs"
  shows "\<exists>many obs' s'. too_many_loops loops obs s = Some (many, obs', s') \<and>
           changes obs \<le> changes obs' + 4"
proof -
  from assms have "0 < changes obs" by simp
  then obtain start obs1 where o: "obs = start # obs1"
    using changes_pos by blast
  from assms o have "0 < changes (start # obs1)" by simp
  from wait_tick_total [OF this] obtain obs2 where
    w: "wait_tick start obs1 = Some obs2" and c2: "changes (start # obs1) \<le> changes obs2 + 2"
    by blast
  from assms o c2 have "0 < changes obs2" by simp
  then obtain start' obs3 where o2: "obs2 = start' # obs3"
    using changes_pos by blast
  from changes_Cons_le [of start' obs3] o2 have c3: "changes obs2 \<le> Suc (changes obs3)"
    by simp
  with assms o c2 have "0 < changes obs3" by simp
  then obtain t obs4 where o3: "obs3 = t # obs4"
    using changes_pos by blast
  from changes_Cons_le [of t obs4] o3 have c4: "changes obs3 \<le> Suc (changes obs4)"
    by simp
  have "too_many_loops loops obs s =
      Some (start' \<noteq> t, obs4,
            s\<lparr>spins := spins s + busy_wait (ucast loops),
              measured := measured s @ [(loops, start' \<noteq> t)]\<rparr>)"
    by (simp add: too_many_loops_def o w o2 o3 Let_def)
  moreover from o c2 c3 c4 have "changes obs \<le> changes obs4 + 4"
    by simp
  ultimately show ?thesis by blast
qed


lemma calibrate_double_total:
  "loops_per_tick s = 2 ^ j \<Longrightarrow> j < 32 \<Longrightarrow> 4 * (32 - j) \<le> changes obs \<Longrightarrow>
     \<exists>r. calibrate_double obs s = Some r \<and>
       (\<forall>obs' s'. r = Inr (obs', s') \<longrightarrow> changes obs \<le> changes obs' + 4 * (32 - j))"
proof (induction n \<equiv> "32 - j" arbitrary: j obs s)
  case 0
  then show ?case by simp
next
  case (Suc n)
  from Suc.prems have "4 \<le> changes obs" by simp
  from too_many_loops_total [OF this, of "push_bit 1 (loops_per_tick s)" s]
  obtain many obs1 s1 where
    t: "too_many_loops (push_bit 1 (loops_per_tick s)) obs s = Some (many, obs1, s1)"
    and c: "changes obs \<le> changes obs1 + 4"
    by blast
  note g = too_many_loops_log [OF t]
  show ?case
  proof (cases many)
    case True
    with t have "calibrate_double obs s = Some (Inr (obs1, s1))"
      by (subst calibrate_double.simps) simp
    with c Suc.prems(2) show ?thesis by simp
  next
    case False
    let ?s2 = "s1\<lparr>loops_per_tick := push_bit 1 (loops_per_tick s1)\<rparr>"
    have q: "loops_per_tick ?s2 = 2 ^ Suc j"
      using g Suc.prems(1) by (simp add: push_bit_eq_mult)
    show ?thesis
    proof (cases "Suc j < 32")
      case less: True
      then have nz: "loops_per_tick ?s2 \<noteq> 0"
        unfolding q by (simp only: pow2_nonzero)
      from Suc.hyps(2) have n: "n = 32 - Suc j" by simp
      from Suc.prems(3) c have "4 * (32 - Suc j) \<le> changes obs1" by simp
      from Suc.hyps(1) [OF n q less this] obtain r where
        r: "calibrate_double obs1 ?s2 = Some r"
        and b: "\<forall>obs' s'. r = Inr (obs', s') \<longrightarrow> changes obs1 \<le> changes obs' + 4 * (32 - Suc j)"
        by blast
      from t False nz r have "calibrate_double obs s = Some r"
        by (subst calibrate_double.simps) (simp add: Let_def)
      moreover from b c less
      have "\<forall>obs' s'. r = Inr (obs', s') \<longrightarrow> changes obs \<le> changes obs' + 4 * (32 - j)"
        by auto
      ultimately show ?thesis by blast
    next
      case False
      then have "loops_per_tick ?s2 = 0"
        unfolding q using pow2_nonzero [of "Suc j"] by simp
      with t \<open>\<not> many\<close> have "calibrate_double obs s = Some (Inl Assertion_failed)"
        by (subst calibrate_double.simps) (simp add: Let_def)
      then show ?thesis by simp
    qed
  qed
qed

lemma calibrate_refine_total:
  "high = 2 ^ k \<Longrightarrow> test = 2 ^ (k - Suc i) \<Longrightarrow> i \<le> 9 \<Longrightarrow> 10 \<le> k \<Longrightarrow> k < 32 \<Longrightarrow>
     4 * (9 - i) \<le> changes obs \<Longrightarrow> \<exists>r. calibrate_refine high test obs s = Some r"
proof (induction n \<equiv> "9 - i" arbitrary: i test obs s)
  case 0
  then have "i = 9" by simp
  with 0 have "test = drop_bit 10 high"
    by (simp add: drop_pow2)
  then show ?case
    by (subst calibrate_refine.simps) simp
next
  case (Suc n)
  from Suc.hyps(2) have i9: "i < 9" by simp
  have d10: "drop_bit 10 high = 2 ^ (k - 10)"
    unfolding Suc.prems(1) using Suc.prems(4,5) by (rule drop_pow2)
  have "k - Suc i < 32" "k - Suc i \<noteq> k - 10"
    using Suc.prems(4,5) i9 by simp_all
  then have ne: "test \<noteq> drop_bit 10 high"
    unfolding Suc.prems(2) d10 by (simp add: pow2_inj)
  from Suc.prems(6) i9 have "4 \<le> changes obs" by simp
  from too_many_loops_total [OF this, of "high OR test" s]
  obtain many obs1 s1 where
    t: "too_many_loops (high OR test) obs s = Some (many, obs1, s1)"
    and c: "changes obs \<le> changes obs1 + 4"
    by blast
  let ?s2 = "if \<not> many then s1\<lparr>loops_per_tick := loops_per_tick s1 OR test\<rparr> else s1"
  have "drop_bit 1 ((2 :: uint32) ^ (k - Suc i)) = 2 ^ (k - Suc i - 1)"
    using Suc.prems(4,5) i9 by (intro drop_pow2) simp_all
  then have t2: "drop_bit 1 test = 2 ^ (k - Suc (Suc i))"
    unfolding Suc.prems(2) by simp
  from i9 have i': "Suc i \<le> 9" by simp
  from Suc.hyps(2) have n: "n = 9 - Suc i" by simp
  from Suc.prems(6) c have c': "4 * (9 - Suc i) \<le> changes obs1" by simp
  from Suc.hyps(1) [OF n Suc.prems(1) t2 i' Suc.prems(4,5) c', of ?s2] obtain r where
    "calibrate_refine high (drop_bit 1 test) obs1 ?s2 = Some r"
    by blast
  with ne t have "calibrate_refine high test obs s = Some r"
    by (subst calibrate_refine.simps) simp
  then show ?case by blast
qed

lemma timer_calibrate_value_total:
  assumes "124 \<le> changes obs"
  shows "\<exists>r. timer_calibrate_value lvl obs s = Some r"
proof (cases "lvl = INTR_ON")
  case False
  then show ?thesis by (simp add: timer_calibrate_value_def)
next
  case True
  let ?s0 = "s\<lparr>loops_per_tick := push_bit 10 1\<rparr>"
  have l0: "loops_per_tick ?s0 = 2 ^ 10"
    by simp
  from assms have "4 * (32 - 10) \<le> changes obs" by simp
  from calibrate_double_total [OF l0 _ this] obtain r where
    d: "calibrate_double obs ?s0 = Some r"
    and b: "\<forall>obs' s'. r = Inr (obs', s') \<longrightarrow> changes obs \<le> changes obs' + 4 * (32 - 10)"
    by auto
  show ?thesis
  proof (cases r)
    case (Inl e)
    with d True show ?thesis by (simp add: timer_calibrate_value_def)
  next
    case (Inr p)
    obtain obs1 s1 where p: "p = (obs1, s1)" by (cases p)
    from d Inr p have d': "calibrate_double obs ?s0 = Some (Inr (obs1, s1))" by simp
    from b Inr p assms have c: "4 * (9 - 0) \<le> changes obs1" by simp
    from calibrate_double_result [OF d' l0] obtain k where
      k: "10 \<le> k" "k < 32" "loops_per_tick s1 = 2 ^ k"
      by auto
    have t: "drop_bit 1 (loops_per_tick s1) = 2 ^ (k - Suc 0)"
      unfolding k(3) using k(1,2) by (subst drop_pow2) simp_all
    from calibrate_refine_total [OF k(3) t _ k(1,2) c, of s1] obtain q where
      "calibrate_refine (loops_per_tick s1) (drop_bit 1 (loops_per_tick s1)) obs1 s1 = Some q"
      by auto
    with d' True show ?thesis
      by (simp add: timer_calibrate_value_def Let_def)
  qed
qed

lemma calibrate_double_fault:
  "calibrate_double obs s = Some (Inl e) \<Longrightarrow> e = Assertion_failed"
proof (induction obs s rule: calibrate_double.induct)
  case (1 obs s)
  from "1.prems" obtain many obs1 s1 where
    t: "too_many_loops (push_bit 1 (loops_per_tick s)) obs s = Some (many, obs1, s1)"
    by (subst (asm) calibrate_double.simps) (auto split: option.splits)
  let ?s2 = "s1\<lparr>loops_per_tick := push_bit 1 (loops_per_tick s1)\<rparr>"
  show ?case
  proof (cases "\<not> many \<and> loops_per_tick ?s2 \<noteq> 0")
    case True
    with "1.prems" t have r: "calibrate_double obs1 ?s2 = Some (Inl e)"
      by (subst (asm) calibrate_double.simps) (simp add: Let_def)
    from True have m: "\<not> many" and nz: "loops_per_tick ?s2 \<noteq> 0"
      by simp_all
    from "1.IH" [OF t refl refl m refl nz r] show ?thesis .
  next
    case False
    with "1.prems" t show ?thesis
      by (subst (asm) calibrate_double.simps) (auto simp: Let_def split: if_splits)
  qed
qed

lemma count_up_changes: "changes (count_up n t) = n - 1"
proof (induction n arbitrary: t)
  case 0
  show ?case by simp
next
  case (Suc n)
  show ?case
  proof (cases n)
    case 0
    then show ?thesis by simp
  next
    case (Suc m)
    with Suc.IH [of "t + 1"] show ?thesis by simp
  qed
qed

text \<open>
  Claim C9. Lines 73 to 88 of \<^verbatim>\<open>timer_calibrate\<close> come to an end when the reads of the tick
  counter show it advancing at least 124 times, and the only fault there is the failed
  assertion. When they reach line 90, interrupts were enabled and there is a \<open>k\<close> from 10 to
  31 such that the calls of \<^verbatim>\<open>too_many_loops\<close> were, in this order: the doubled values
  \<open>2^11\<close>, ..., \<open>2^k\<close>, each answered false, then \<open>2^(k+1)\<close>, answered true (so the leading bit
  is \<open>2^k\<close>, which has not wrapped to zero), then \<^verbatim>\<open>high_bit | test_bit\<close> for the nine bits
  \<open>2^(k-1)\<close> down to \<open>2^(k-9)\<close>, stopping before \<^verbatim>\<open>high_bit >> 10\<close>. The value computed has
  bit \<open>k\<close> and exactly those of the nine tested bits whose call was answered false: it is
  \<open>2^k\<close> plus these bits. \<^verbatim>\<open>timer_calibrate\<close> then ends in the fault of the \<^verbatim>\<open>printf\<close> call of
  line 90. When the doubled value wraps to zero the assertion fails.
\<close>

theorem timer_calibrate_result:
  "(124 \<le> changes obs \<longrightarrow> (\<exists>r. timer_calibrate_value lvl obs s = Some r)) \<and>
   (\<forall>obs' s'. timer_calibrate_value lvl obs s = Some (Inr (obs', s')) \<longrightarrow>
      lvl = INTR_ON \<and>
      (\<exists>k as. 10 \<le> k \<and> k < 32 \<and> length as = 9 \<and>
         drop (length (measured s)) (measured s') =
           map (\<lambda>i. (2 ^ Suc i, False)) [10..<k] @ [(2 ^ Suc k, True)] @
           map (\<lambda>m. (2 ^ k OR 2 ^ (k - Suc m), as ! m)) [0..<9] \<and>
         (\<forall>b. bit (loops_per_tick s') b \<longleftrightarrow> b = k \<or> (\<exists>m < 9. b = k - Suc m \<and> \<not> as ! m)) \<and>
         loops_per_tick s' =
           2 ^ k + sum_list (map (\<lambda>m. if as ! m then 0 else 2 ^ (k - Suc m)) [0..<9])) \<and>
      timer_calibrate lvl obs s = Some (Inl Format_fault)) \<and>
   (\<forall>e. timer_calibrate_value lvl obs s = Some (Inl e) \<longrightarrow>
      e = Assertion_failed \<and> timer_calibrate lvl obs s = Some (Inl Assertion_failed)) \<and>
   (timer_calibrate_value lvl obs s = None \<longleftrightarrow> timer_calibrate lvl obs s = None) \<and>
   (\<forall>obs0 s0 obs1 s1.
      loops_per_tick s0 = 2 ^ 31 \<and>
      too_many_loops (push_bit 1 (loops_per_tick s0)) obs0 s0 = Some (False, obs1, s1) \<longrightarrow>
      calibrate_double obs0 s0 = Some (Inl Assertion_failed))"
proof -
  have wrap: "\<forall>obs0 s0 obs1 s1.
       loops_per_tick s0 = 2 ^ 31 \<and>
       too_many_loops (push_bit 1 (loops_per_tick s0)) obs0 s0 = Some (False, obs1, s1) \<longrightarrow>
       calibrate_double obs0 s0 = Some (Inl Assertion_failed)"
  proof (intro allI impI, elim conjE)
    fix obs0 s0 obs1 s1
    assume l: "loops_per_tick s0 = 2 ^ 31"
      and t: "too_many_loops (push_bit 1 (loops_per_tick s0)) obs0 s0 = Some (False, obs1, s1)"
    from too_many_loops_log [OF t] l have "push_bit 1 (loops_per_tick s1) = 0"
      by simp
    with t show "calibrate_double obs0 s0 = Some (Inl Assertion_failed)"
      by (subst calibrate_double.simps) (simp add: Let_def)
  qed
  have total: "124 \<le> changes obs \<longrightarrow> (\<exists>r. timer_calibrate_value lvl obs s = Some r)"
    by (blast intro: timer_calibrate_value_total)
  have fault: "\<forall>e. timer_calibrate_value lvl obs s = Some (Inl e) \<longrightarrow>
      e = Assertion_failed \<and> timer_calibrate lvl obs s = Some (Inl Assertion_failed)"
  proof (intro allI impI)
    fix e
    assume v: "timer_calibrate_value lvl obs s = Some (Inl e)"
    have "e = Assertion_failed"
    proof (cases "lvl = INTR_ON")
      case False
      with v show ?thesis by (simp add: timer_calibrate_value_def)
    next
      case True
      with v have "calibrate_double obs (s\<lparr>loops_per_tick := push_bit 10 1\<rparr>) = Some (Inl e)"
        by (auto simp: timer_calibrate_value_def Let_def split: option.splits sum.splits)
      then show ?thesis by (rule calibrate_double_fault)
    qed
    with v show "e = Assertion_failed \<and> timer_calibrate lvl obs s = Some (Inl Assertion_failed)"
      by (simp add: timer_calibrate_def)
  qed
  have none: "timer_calibrate_value lvl obs s = None \<longleftrightarrow> timer_calibrate lvl obs s = None"
    by (auto simp: timer_calibrate_def split: option.splits sum.splits)
  have reach: "\<forall>obs' s'. timer_calibrate_value lvl obs s = Some (Inr (obs', s')) \<longrightarrow>
      lvl = INTR_ON \<and>
      (\<exists>k as. 10 \<le> k \<and> k < 32 \<and> length as = 9 \<and>
         drop (length (measured s)) (measured s') =
           map (\<lambda>i. (2 ^ Suc i, False)) [10..<k] @ [(2 ^ Suc k, True)] @
           map (\<lambda>m. (2 ^ k OR 2 ^ (k - Suc m), as ! m)) [0..<9] \<and>
         (\<forall>b. bit (loops_per_tick s') b \<longleftrightarrow> b = k \<or> (\<exists>m < 9. b = k - Suc m \<and> \<not> as ! m)) \<and>
         loops_per_tick s' =
           2 ^ k + sum_list (map (\<lambda>m. if as ! m then 0 else 2 ^ (k - Suc m)) [0..<9])) \<and>
      timer_calibrate lvl obs s = Some (Inl Format_fault)"
  proof (intro allI impI)
    fix obs' s'
    assume v: "timer_calibrate_value lvl obs s = Some (Inr (obs', s'))"
    then have on: "lvl = INTR_ON"
      by (auto simp: timer_calibrate_value_def split: if_splits)
    from v have ff: "timer_calibrate lvl obs s = Some (Inl Format_fault)"
      by (simp add: timer_calibrate_def)
    let ?s0 = "s\<lparr>loops_per_tick := push_bit 10 1\<rparr>"
    from v on obtain obs1 s1 where
      d: "calibrate_double obs ?s0 = Some (Inr (obs1, s1))"
      and r: "calibrate_refine (loops_per_tick s1) (drop_bit 1 (loops_per_tick s1)) obs1 s1 =
                Some (obs', s')"
      by (auto simp: timer_calibrate_value_def Let_def split: option.splits sum.splits)
    have l0: "loops_per_tick ?s0 = 2 ^ 10"
      by simp
    from calibrate_double_result [OF d l0] obtain k where
      k: "10 \<le> k" "k < 32" "loops_per_tick s1 = 2 ^ k"
      and m1: "measured s1 =
        measured s @ map (\<lambda>i. (2 ^ Suc i, False)) [10..<k] @ [(2 ^ Suc k, True)]"
      by auto
    have t: "drop_bit 1 (loops_per_tick s1) = 2 ^ (k - Suc 0)"
      unfolding k(3) using k(1,2) by (subst drop_pow2) simp_all
    from calibrate_refine_result [OF r k(3) t _ k(1,2)] obtain as where
      len: "length as = 9"
      and m2: "measured s' =
        measured s1 @ map (\<lambda>m. (2 ^ k OR 2 ^ (k - Suc m), as ! m)) [0..<9]"
      and bits: "\<forall>b. bit (loops_per_tick s') b \<longleftrightarrow>
        bit (loops_per_tick s1) b \<or> (\<exists>m < 9. b = k - Suc m \<and> \<not> as ! m)"
      by auto
    have log: "drop (length (measured s)) (measured s') =
        map (\<lambda>i. (2 ^ Suc i, False)) [10..<k] @ [(2 ^ Suc k, True)] @
        map (\<lambda>m. (2 ^ k OR 2 ^ (k - Suc m), as ! m)) [0..<9]"
      unfolding m2 m1 by (simp del: upt_Suc)
    have b: "bit (loops_per_tick s') b \<longleftrightarrow> b = k \<or> (\<exists>m < 9. b = k - Suc m \<and> \<not> as ! m)" for b
      using bits k(2) by (simp add: k(3) bit_pow2)
    have "9 \<le> k" using k(1) by simp
    from bit_passed_sum [OF this k(2), of as]
    have val: "loops_per_tick s' =
        2 ^ k + sum_list (map (\<lambda>m. if as ! m then 0 else 2 ^ (k - Suc m)) [0..<9])"
      by (intro bit_eqI) (simp only: b)
    from k(1,2) len log b val have "\<exists>k as. 10 \<le> k \<and> k < 32 \<and> length as = 9 \<and>
         drop (length (measured s)) (measured s') =
           map (\<lambda>i. (2 ^ Suc i, False)) [10..<k] @ [(2 ^ Suc k, True)] @
           map (\<lambda>m. (2 ^ k OR 2 ^ (k - Suc m), as ! m)) [0..<9] \<and>
         (\<forall>b. bit (loops_per_tick s') b \<longleftrightarrow> b = k \<or> (\<exists>m < 9. b = k - Suc m \<and> \<not> as ! m)) \<and>
         loops_per_tick s' =
           2 ^ k + sum_list (map (\<lambda>m. if as ! m then 0 else 2 ^ (k - Suc m)) [0..<9])"
      by blast
    with on ff show "lvl = INTR_ON \<and>
      (\<exists>k as. 10 \<le> k \<and> k < 32 \<and> length as = 9 \<and>
         drop (length (measured s)) (measured s') =
           map (\<lambda>i. (2 ^ Suc i, False)) [10..<k] @ [(2 ^ Suc k, True)] @
           map (\<lambda>m. (2 ^ k OR 2 ^ (k - Suc m), as ! m)) [0..<9] \<and>
         (\<forall>b. bit (loops_per_tick s') b \<longleftrightarrow> b = k \<or> (\<exists>m < 9. b = k - Suc m \<and> \<not> as ! m)) \<and>
         loops_per_tick s' =
           2 ^ k + sum_list (map (\<lambda>m. if as ! m then 0 else 2 ^ (k - Suc m)) [0..<9])) \<and>
      timer_calibrate lvl obs s = Some (Inl Format_fault)"
      by (intro conjI) assumption+
  qed
  from total reach fault none wrap show ?thesis
    by (intro conjI) assumption+
qed

lemma calibration_run:
  "\<exists>obs' s'. timer_calibrate_value INTR_ON calibration_reads boot = Some (Inr (obs', s')) \<and>
     loops_per_tick s' = 3328 \<and>
     measured s' =
       [(2048, False), (4096, True), (3072, False), (2560, True), (2304, False),
        (2176, True), (2112, True), (2080, True), (2064, True), (2056, True), (2052, True)]"
  by (simp add: timer_calibrate_value_def calibrate_double.simps calibrate_refine.simps
      too_many_loops_def calibration_reads_def fits_def too_long_def boot_def timer_init_def
      Let_def busy_wait_eq)

theorem timer_calibrate_result_witness:
  "(\<exists>obs' s'. timer_calibrate_value INTR_ON calibration_reads boot = Some (Inr (obs', s')) \<and>
     loops_per_tick s' = 3328 \<and>
     (\<exists>k as. 10 \<le> k \<and> k < 32 \<and> length as = 9 \<and>
        loops_per_tick s' =
          2 ^ k + sum_list (map (\<lambda>m. if as ! m then 0 else 2 ^ (k - Suc m)) [0..<9]))) \<and>
   timer_calibrate INTR_ON calibration_reads boot = Some (Inl Format_fault) \<and>
   124 \<le> changes steady \<and>
   (\<exists>r. timer_calibrate_value INTR_ON steady boot = Some r) \<and>
   timer_calibrate_value INTR_OFF steady boot = Some (Inl Assertion_failed) \<and>
   timer_calibrate INTR_OFF steady boot = Some (Inl Assertion_failed) \<and>
   calibrate_double fits (boot\<lparr>loops_per_tick := 2 ^ 31\<rparr>) = Some (Inl Assertion_failed)"
proof -
  from calibration_run obtain obs' s' where
    r: "timer_calibrate_value INTR_ON calibration_reads boot = Some (Inr (obs', s'))"
    and v: "loops_per_tick s' = 3328"
    by auto
  note th = timer_calibrate_result [of calibration_reads INTR_ON boot]
  from th r have
    a: "\<exists>k as. 10 \<le> k \<and> k < 32 \<and> length as = 9 \<and>
        loops_per_tick s' =
          2 ^ k + sum_list (map (\<lambda>m. if as ! m then 0 else 2 ^ (k - Suc m)) [0..<9])"
    by blast
  from th r have b: "timer_calibrate INTR_ON calibration_reads boot = Some (Inl Format_fault)"
    by blast
  have c: "124 \<le> changes steady"
    by (simp add: steady_def count_up_changes)
  with timer_calibrate_result [of steady INTR_ON boot]
  have d: "\<exists>r. timer_calibrate_value INTR_ON steady boot = Some r"
    by blast
  have e: "timer_calibrate_value INTR_OFF steady boot = Some (Inl Assertion_failed)"
    by (simp add: timer_calibrate_value_def)
  with timer_calibrate_result [of steady INTR_OFF boot]
  have f: "timer_calibrate INTR_OFF steady boot = Some (Inl Assertion_failed)"
    by blast
  have "too_many_loops (push_bit 1 (loops_per_tick (boot\<lparr>loops_per_tick := 2 ^ 31\<rparr>)))
      fits (boot\<lparr>loops_per_tick := 2 ^ 31\<rparr>) =
      Some (False, [], boot\<lparr>loops_per_tick := 2 ^ 31, measured := [(0, False)]\<rparr>)"
    by (simp add: too_many_loops_def fits_def boot_def timer_init_def Let_def busy_wait_eq)
  with th
  have g: "calibrate_double fits (boot\<lparr>loops_per_tick := 2 ^ 31\<rparr>) = Some (Inl Assertion_failed)"
    by simp
  from r v a have "\<exists>obs' s'. timer_calibrate_value INTR_ON calibration_reads boot = Some (Inr (obs', s')) \<and>
     loops_per_tick s' = 3328 \<and>
     (\<exists>k as. 10 \<le> k \<and> k < 32 \<and> length as = 9 \<and>
        loops_per_tick s' =
          2 ^ k + sum_list (map (\<lambda>m. if as ! m then 0 else 2 ^ (k - Suc m)) [0..<9]))"
    by (iprover intro: conjI exI)
  from this b c d e f g show ?thesis
    by (intro conjI) assumption+
qed

end
